theory Spec2Isabelle
  imports Complex_Main "HOL-Library.AList" "HOL-Library.Char_ord" "HOL-Library.List_Lexorder"
    "HOL-Library.Log_Nat"
begin

section \<open>Python strings and integers\<close>

text \<open>
  Python strings are modelled as \<^typ>\<open>string\<close>; every literal of the scripts is ASCII.
  \<open>str.lower\<close> is modelled on the ASCII letters (other characters are left as they are).
\<close>

definition lower_char :: "char \<Rightarrow> char" where
  "lower_char c =
     (if CHR ''A'' \<le> c \<and> c \<le> CHR ''Z'' then char_of (of_char c + (32::nat)) else c)"

definition lower :: "string \<Rightarrow> string" where
  "lower s = map lower_char s"

text \<open>\<open>range(n)\<close> for a Python integer: empty when \<open>n \<le> 0\<close>.\<close>

definition py_range :: "int \<Rightarrow> nat list" where
  "py_range n = [0..<nat n]"

text \<open>\<open>str(n)\<close> and the format \<open>{n:03d}\<close> for a non-negative integer.\<close>

definition digit_char :: "nat \<Rightarrow> char" where
  "digit_char d = char_of (48 + d)"

fun str_nat :: "nat \<Rightarrow> string" where
  "str_nat n = (if n < 10 then [digit_char n] else str_nat (n div 10) @ [digit_char (n mod 10)])"

declare str_nat.simps [simp del]

definition format_03d :: "nat \<Rightarrow> string" where
  "format_03d n = (let s = str_nat n in replicate (3 - length s) CHR ''0'' @ s)"

text \<open>\<open>s.startswith(p)\<close>, \<open>s.endswith(p)\<close>, \<open>s.replace(old, new)\<close> (all non-overlapping
  occurrences, left to right) and \<open>s.strip()\<close>.\<close>

definition startswith :: "string \<Rightarrow> string \<Rightarrow> bool" where
  "startswith s p = (take (length p) s = p)"

definition endswith :: "string \<Rightarrow> string \<Rightarrow> bool" where
  "endswith s p = (length p \<le> length s \<and> drop (length s - length p) s = p)"

fun replace_from :: "string \<Rightarrow> string \<Rightarrow> nat \<Rightarrow> string \<Rightarrow> string" where
  "replace_from old new k [] = []"
| "replace_from old new k (c # cs) =
     (if 0 < k then replace_from old new (k - 1) cs
      else if startswith (c # cs) old then new @ replace_from old new (length old - 1) cs
      else c # replace_from old new 0 cs)"

definition intersperse_all :: "string \<Rightarrow> string \<Rightarrow> string" where
  "intersperse_all new s = new @ concat (map (\<lambda>c. c # new) s)"

definition replace :: "string \<Rightarrow> string \<Rightarrow> string \<Rightarrow> string" where
  "replace s old new = (if old = [] then intersperse_all new s else replace_from old new 0 s)"

definition is_space :: "char \<Rightarrow> bool" where
  "is_space c = (c \<in> set [CHR '' '', CHR 0x09, CHR 0x0A, CHR 0x0B, CHR 0x0C, CHR 0x0D,
                            CHR 0x1C, CHR 0x1D, CHR 0x1E, CHR 0x1F])"

definition strip :: "string \<Rightarrow> string" where
  "strip s = rev (dropWhile is_space (rev (dropWhile is_space s)))"

section \<open>Content generator (generate_large_pdf.py)\<close>

text \<open>The fixed clauses that \<open>create_detailed_paragraphs\<close> appends to a base sentence.\<close>

definition concept_clause :: string where
  "concept_clause =
     ''This concept is fundamental to understanding modern AI systems and represents a '' @
     ''significant breakthrough in computational approaches to machine learning. ''"

definition research_clause :: string where
  "research_clause =
     ''Research from leading institutions including MIT, Stanford, Carnegie Mellon, UC '' @
     ''Berkeley, and Google Research has shown that ''"

definition frameworks_clause :: string where
  "frameworks_clause =
     ''Implementation details vary significantly across different frameworks including '' @
     ''TensorFlow 2.x, PyTorch 2.0, JAX with Flax, Hugging Face Transformers, and specialized '' @
     ''libraries like FairSeq and AllenNLP. ''"

definition hardware_clause :: string where
  "hardware_clause =
     ''Performance benchmarks conducted on diverse hardware configurations including NVIDIA '' @
     ''A100, H100, V100 GPUs, TPU v4 pods, and AWS Trainium instances indicate substantial '' @
     ''improvements when ''"

definition applications_clause :: string where
  "applications_clause =
     ''Industry applications span numerous domains including healthcare diagnostics, financial '' @
     ''risk assessment, autonomous vehicle perception, robotics control systems, natural '' @
     ''language understanding, computer vision, and drug discovery. ''"

definition future_clause :: string where
  "future_clause =
     ''Future research directions encompass optimization strategies, model interpretability '' @
     ''techniques, robustness enhancement methods, privacy-preserving approaches, federated '' @
     ''learning architectures, and sustainable AI development practices. ''"

definition mathematics_clause :: string where
  "mathematics_clause =
     ''Mathematical formulations underlying these concepts involve complex optimization '' @
     ''problems, gradient-based learning algorithms, statistical learning theory, information '' @
     ''theory principles, and computational complexity analysis. ''"

definition validation_clause :: string where
  "validation_clause =
     ''Experimental validation requires comprehensive datasets, rigorous evaluation protocols, '' @
     ''statistical significance testing, ablation studies, and reproducibility verification '' @
     ''across multiple research groups and computational environments. ''"

definition deployment_clause :: string where
  "deployment_clause =
     ''The implications for practical deployment include considerations for model serving '' @
     ''infrastructure, real-time inference requirements, batch processing capabilities, '' @
     ''monitoring and observability systems, A/B testing frameworks, and continuous learning '' @
     ''pipelines. ''"

text \<open>
  The body of the inner loop of \<open>create_detailed_paragraphs\<close>: the string \<open>detailed\<close> built
  by the ten \<open>+=\<close> steps. The loop variable \<open>i\<close> is in scope, as in the source.
\<close>

definition detailed :: "string \<Rightarrow> nat \<Rightarrow> string" where
  "detailed base_content i =
     (let d = base_content @ '' '';
          d = d @ concept_clause;
          d = d @ research_clause @ lower base_content @ '' '';
          d = d @ frameworks_clause;
          d = d @ hardware_clause @ lower base_content @ '' '';
          d = d @ applications_clause;
          d = d @ future_clause;
          d = d @ mathematics_clause;
          d = d @ validation_clause;
          d = d @ deployment_clause
      in d)"

text \<open>The two nested loops, appending to the list \<open>expanded\<close>.\<close>

fun repetition_loop :: "string \<Rightarrow> nat list \<Rightarrow> string list \<Rightarrow> string list" where
  "repetition_loop base_content [] expanded = expanded"
| "repetition_loop base_content (i # rest) expanded =
     repetition_loop base_content rest (expanded @ [detailed base_content i])"

fun content_loop :: "string list \<Rightarrow> int \<Rightarrow> string list \<Rightarrow> string list" where
  "content_loop [] repetitions expanded = expanded"
| "content_loop (base_content # rest) repetitions expanded =
     content_loop rest repetitions
       (repetition_loop base_content (py_range repetitions) expanded)"

text \<open>
  \<open>def create_detailed_paragraphs(content_list, repetitions=300)\<close>: the optional argument is
  \<^term>\<open>None\<close> when the caller leaves it out.
\<close>

definition default_repetitions :: int where
  "default_repetitions = 300"

definition create_detailed_paragraphs :: "string list \<Rightarrow> int option \<Rightarrow> string list" where
  "create_detailed_paragraphs content_list repetitions =
     content_loop content_list
       (case repetitions of None \<Rightarrow> default_repetitions | Some r \<Rightarrow> r) []"

text \<open>
  \<open>generate_massive_research_sections\<close>: the dictionary literal, in insertion order
  (its keys are pairwise different).
\<close>

definition generate_massive_research_sections :: "(string \<times> string list) list" where
  "generate_massive_research_sections = [
    (''Deep Learning Fundamentals and Mathematical Foundations'',
     [''Neural networks are sophisticated computational models inspired by biological neural '' @
       ''networks found in animal brains. They consist of interconnected processing nodes called '' @
       ''neurons organized in hierarchical layers that enable complex pattern recognition and '' @
       ''decision-making capabilities.'',
      ''The fundamental building block is the artificial neuron or perceptron, which performs a '' @
       ''weighted linear combination of input features followed by a nonlinear activation '' @
       ''function such as ReLU, sigmoid, or tanh to introduce necessary nonlinearity for complex '' @
       ''function approximation.'',
      ''Deep neural networks contain multiple hidden layers between input and output layers, '' @
       ''enabling them to learn hierarchical representations and complex patterns through the '' @
       ''composition of simpler functions across different levels of abstraction.'',
      ''Training involves forward propagation to compute predictions and backpropagation to '' @
       ''update network weights based on error gradients computed through the chain rule of '' @
       ''calculus, enabling automatic differentiation and gradient-based optimization.'',
      ''Gradient descent optimization algorithms including SGD, Adam, AdaGrad, and RMSprop '' @
       ''enable efficient parameter updates by following the negative gradient direction to '' @
       ''minimize loss functions and improve model performance over training iterations.'']),
    (''Advanced Transformer Architectures and Attention Mechanisms'',
     [''The Transformer architecture represents a revolutionary breakthrough in sequence '' @
       ''modeling that fundamentally changed natural language processing through the '' @
       ''introduction of self-attention mechanisms that enable parallel computation and '' @
       ''long-range dependency modeling.'',
      ''Self-attention mechanisms allow models to dynamically weight the importance of '' @
       ''different positions in the input sequence, enabling the capture of complex '' @
       ''relationships and dependencies without the sequential processing limitations of '' @
       ''recurrent architectures.'',
      ''Multi-head attention enables the model to simultaneously attend to information from '' @
       ''different representation subspaces at different positions, providing richer '' @
       ''representations and improved modeling of complex linguistic phenomena.'',
      ''Position encoding schemes are crucial components since Transformers lack inherent '' @
       ''understanding of sequence order, requiring explicit positional information through '' @
       ''sinusoidal encodings, learned embeddings, or relative position representations.'',
      ''The encoder-decoder structure with cross-attention facilitates powerful '' @
       ''sequence-to-sequence capabilities for tasks including machine translation, text '' @
       ''summarization, question answering, and dialogue generation with state-of-the-art '' @
       ''performance.'']),
    (''Optimization Algorithms and Training Methodologies'',
     [''Gradient descent serves as the fundamental optimization algorithm for neural network '' @
       ''training, iteratively updating parameters in the direction that minimizes the loss '' @
       ''function through first-order gradient information.'',
      ''Stochastic gradient descent introduces randomness by using mini-batches of training '' @
       ''examples to approximate the true gradient, enabling efficient training on large '' @
       ''datasets while providing regularization benefits through noise injection.'',
      ''Advanced optimizers like Adam combine momentum-based methods with adaptive learning '' @
       ''rates, maintaining exponential moving averages of gradients and their squared values to '' @
       ''achieve faster convergence and improved stability across diverse optimization '' @
       ''landscapes.'',
      ''Learning rate scheduling strategies including cosine annealing, step decay, and warm-up '' @
       ''phases help models converge more effectively by adjusting the learning rate throughout '' @
       ''training to balance exploration and exploitation.'',
      ''Regularization techniques including dropout, weight decay, batch normalization, and '' @
       ''layer normalization prevent overfitting and improve generalization by constraining '' @
       ''model complexity and stabilizing training dynamics.'']),
    (''Computer Vision Applications and Convolutional Architectures'',
     [''Convolutional Neural Networks represent specialized architectures designed specifically '' @
       ''for processing grid-like data such as images, leveraging translation equivariance and '' @
       ''local connectivity patterns to efficiently extract hierarchical visual features.'',
      ''Feature maps generated through convolution operations capture spatial hierarchies and '' @
       ''local patterns through learnable filters that detect edges, textures, shapes, and '' @
       ''increasingly complex visual concepts across network depth.'',
      ''Residual Networks introduced skip connections to address the vanishing gradient problem '' @
       ''in very deep networks, enabling the training of networks with hundreds of layers while '' @
       ''maintaining gradient flow and representational capacity.'',
      ''Object detection systems combine classification and localization capabilities using '' @
       ''architectures like YOLO, R-CNN, and SSD to simultaneously identify and locate multiple '' @
       ''objects within images with high accuracy and real-time performance.'',
      ''Image segmentation provides pixel-level classification for detailed scene '' @
       ''understanding, enabling applications in medical imaging, autonomous driving, and '' @
       ''augmented reality through precise object boundary delineation.'']),
    (''Natural Language Processing and Language Models'',
     [''Tokenization represents the fundamental preprocessing step for text data, converting '' @
       ''raw text into discrete tokens that can be processed by neural networks through various '' @
       ''strategies including word-level, subword, and character-level approaches.'',
      ''Word embeddings such as Word2Vec, GloVe, and FastText capture semantic relationships '' @
       ''between words in continuous vector spaces, enabling models to understand similarity, '' @
       ''analogy, and contextual relationships between linguistic units.'',
      ''Recurrent Neural Networks and Long Short-Term Memory networks provided early solutions '' @
       ''for sequence modeling by maintaining hidden states that capture temporal dependencies, '' @
       ''though they suffered from vanishing gradients and sequential processing limitations.'',
      ''BERT introduced bidirectional context understanding through masked language modeling '' @
       ''pretraining, enabling models to understand context from both directions and achieving '' @
       ''significant improvements across numerous NLP benchmarks.'',
      ''Generative Pre-trained Transformers demonstrate the remarkable power of autoregressive '' @
       ''language generation, scaling to billions of parameters and exhibiting emergent '' @
       ''capabilities in reasoning, few-shot learning, and general language understanding.'']),
    (''Reinforcement Learning and Decision Making'',
     [''Reinforcement learning enables agents to learn optimal decision-making policies through '' @
       ''interaction with environments, using reward signals to guide learning without requiring '' @
       ''explicit supervision or labeled training data.'',
      ''Q-learning algorithms use action-value functions to estimate the expected cumulative '' @
       ''reward of taking specific actions in given states, enabling model-free learning of '' @
       ''optimal policies through temporal difference methods.'',
      ''Policy gradient methods directly optimize the agent's decision-making policy using '' @
       ''gradient ascent on expected rewards, providing more direct optimization of the ultimate '' @
       ''objective and handling continuous action spaces more naturally.'',
      ''Actor-critic algorithms combine the benefits of value estimation and policy '' @
       ''optimization, using a critic network to estimate state values and an actor network to '' @
       ''learn the policy, providing reduced variance and improved sample efficiency.'',
      ''Deep Q-Networks brought the power of deep learning to reinforcement learning by using '' @
       ''neural networks to approximate Q-functions, enabling RL agents to handle '' @
       ''high-dimensional state spaces like raw pixel observations.'']),
    (''Machine Learning Ethics and Responsible AI'',
     [''Bias in AI systems represents a critical challenge that can perpetuate and amplify '' @
       ''existing societal inequalities, requiring careful attention to data collection, model '' @
       ''development, and deployment practices to ensure fair and equitable outcomes.'',
      ''Fairness metrics provide quantitative measures for assessing discriminatory behavior in '' @
       ''model predictions, including demographic parity, equalized odds, and individual '' @
       ''fairness criteria that help identify and mitigate biased decision-making.'',
      ''Explainable AI techniques make model decisions more transparent and interpretable '' @
       ''through methods like attention visualization, feature attribution, LIME, SHAP, and '' @
       ''counterfactual explanations that help users understand model reasoning.'',
      ''Privacy-preserving methods including federated learning, differential privacy, and '' @
       ''secure multi-party computation enable machine learning on sensitive data while '' @
       ''protecting individual privacy and maintaining data utility.'',
      ''Responsible AI development requires consideration of broader societal impacts, '' @
       ''including environmental sustainability, job displacement, security vulnerabilities, and '' @
       ''the concentration of AI capabilities in large technology companies.'']),
    (''Model Deployment and Production Systems'',
     [''Model serving infrastructure must handle varying computational loads, latency '' @
       ''requirements, and throughput demands while maintaining reliability, scalability, and '' @
       ''cost-effectiveness in production environments.'',
      ''Containerization technologies like Docker enable consistent deployment across different '' @
       ''computing environments by packaging models with their dependencies and runtime '' @
       ''requirements in portable, lightweight containers.'',
      ''Kubernetes orchestration manages the scaling, deployment, and operation of '' @
       ''containerized ML workloads, providing automated scaling, load balancing, service '' @
       ''discovery, and fault tolerance for production AI systems.'',
      ''Model monitoring tracks performance degradation, data drift, and concept drift in '' @
       ''production systems through comprehensive logging, alerting, and analysis of prediction '' @
       ''quality, input distributions, and system performance metrics.'',
      ''A/B testing frameworks enable safe rollout of new model versions by comparing '' @
       ''performance against baseline models on live traffic, providing statistical validation '' @
       ''of improvements and minimizing risks during model updates.''])
  ]"

section \<open>Document builder (generate_large_pdf.py)\<close>

text \<open>
  The list \<open>content\<close> that \<open>generate_pdf\<close> hands to the rendering library: paragraphs
  with their style, spacers, page breaks and tables (the table style is presentation only
  and is left out). Rendering and the written file belong to the library.
\<close>

datatype style = CustomTitle | CustomHeading | Title | Normal

datatype flowable =
    Paragraph string style
  | Spacer nat nat
  | PageBreak
  | Table "string list list"

definition table_data :: "string list list" where
  "table_data = [
      [''Metric'', ''Baseline'', ''Improved'', ''Enhancement'', ''Significance''],
      [''Accuracy'', ''87.2%'', ''94.7%'', ''+7.5%'', ''p<0.001''],
      [''F1-Score'', ''0.832'', ''0.923'', ''+0.091'', ''p<0.001''],
      [''Precision'', ''0.845'', ''0.935'', ''+0.090'', ''p<0.001''],
      [''Recall'', ''0.819'', ''0.912'', ''+0.093'', ''p<0.001''],
      [''Training Time'', ''24.3h'', ''18.7h'', ''-23.0%'', ''p<0.01''],
      [''Memory Usage'', ''8.2GB'', ''6.8GB'', ''-17.1%'', ''p<0.01''],
      [''Inference Speed'', ''45ms'', ''32ms'', ''-28.9%'', ''p<0.001''],
      [''Energy Consumption'', ''120W'', ''95W'', ''-20.8%'', ''p<0.05'']
    ]"

definition nl :: string where
  "nl = [CHR 0x0A]"

text \<open>The triple-quoted f-string \<open>experimental_text\<close>, line by line, then
  \<open>.replace('\n            ', ' ').strip()\<close>.\<close>

definition experimental_template :: "nat \<Rightarrow> string" where
  "experimental_template repeat_cycle =
     nl @ ''            Comprehensive experimental validation was conducted across '' @
       str_nat (repeat_cycle + 5) @ '' different datasets '' @
     nl @ ''            with rigorous cross-validation protocols. The results demonstrate consistent improvements across '' @
     nl @ ''            all evaluation metrics with high statistical significance. Implementation details include '' @
     nl @ ''            optimization strategies, distributed training approaches, and production deployment considerations. '' @
     nl @ ''            The methodology encompasses data preprocessing, feature engineering, model architecture design, '' @
     nl @ ''            hyperparameter optimization, and performance evaluation using industry-standard benchmarks.'' @
     nl @ ''            '' @
     nl @ ''            Advanced techniques employed include gradient clipping, learning rate scheduling, batch normalization, '' @
     nl @ ''            dropout regularization, weight decay, early stopping, and ensemble methods. The computational '' @
     nl @ ''            infrastructure utilized high-performance GPU clusters with efficient data loading pipelines '' @
     nl @ ''            and distributed training frameworks for scalable machine learning workflows.'' @
     nl @ ''            '' @
     nl @ ''            Statistical analysis reveals significant improvements (p < 0.001) across all major evaluation '' @
     nl @ ''            metrics with large effect sizes (Cohen's d > 1.2) indicating practical significance for '' @
     nl @ ''            real-world deployment scenarios. Confidence intervals are narrow, demonstrating consistent '' @
     nl @ ''            performance across different experimental conditions and random seeds.'' @
     nl @ ''            ''"

definition experimental_text :: "nat \<Rightarrow> string" where
  "experimental_text repeat_cycle =
     strip (replace (experimental_template repeat_cycle) (nl @ ''            '') '' '')"

text \<open>\<open>for para in detailed_paragraphs\<close>: a paragraph and a spacer for each.\<close>

fun paragraph_loop :: "string list \<Rightarrow> flowable list \<Rightarrow> flowable list" where
  "paragraph_loop [] content = content"
| "paragraph_loop (para # rest) content =
     paragraph_loop rest (content @ [Paragraph para Normal] @ [Spacer 1 6])"

text \<open>The body of the loop over \<open>sections.items()\<close>, for one section in one cycle.\<close>

definition section_body ::
    "nat \<Rightarrow> int \<Rightarrow> string \<times> string list \<Rightarrow> flowable list \<Rightarrow> flowable list" where
  "section_body repeat_cycle repetitions item content =
     (case item of (section_title, section_content) \<Rightarrow>
        let section_with_cycle = section_title @ '' - Volume '' @ str_nat (repeat_cycle + 1);
            content = content @ [Paragraph section_with_cycle CustomHeading];
            content = content @ [Spacer 1 12];
            detailed_paragraphs = create_detailed_paragraphs section_content (Some repetitions);
            content = paragraph_loop detailed_paragraphs content;
            content = content @ [Table table_data];
            content = content @ [Spacer 1 15];
            content = content @ [Paragraph (experimental_text repeat_cycle) Normal];
            content = content @ [Spacer 1 10];
            content = content @ [PageBreak]
        in content)"

fun section_loop ::
    "nat \<Rightarrow> int \<Rightarrow> (string \<times> string list) list \<Rightarrow> flowable list \<Rightarrow> flowable list" where
  "section_loop repeat_cycle repetitions [] content = content"
| "section_loop repeat_cycle repetitions (item # rest) content =
     section_loop repeat_cycle repetitions rest
       (section_body repeat_cycle repetitions item content)"

fun cycle_loop ::
    "nat list \<Rightarrow> int \<Rightarrow> (string \<times> string list) list \<Rightarrow> flowable list \<Rightarrow> flowable list" where
  "cycle_loop [] repetitions sections content = content"
| "cycle_loop (repeat_cycle # rest) repetitions sections content =
     cycle_loop rest repetitions sections
       (section_loop repeat_cycle repetitions sections content)"

definition title_page :: "flowable list" where
  "title_page =
     [Paragraph ''Comprehensive AI Research Document'' CustomTitle,
      Spacer 1 20,
      Paragraph ''Advanced Machine Learning and Deep Learning Techniques'' Title,
      Spacer 1 20,
      Paragraph (''A detailed exploration of neural networks, transformers, optimization, '' @
                 ''and applications'') Normal,
      PageBreak]"

text \<open>
  The builder with its two constants as parameters: \<open>cycles\<close> stands for the \<open>20\<close> of
  \<open>range(20)\<close> and \<open>repetitions\<close> for the \<open>200\<close> of \<open>repetitions=200\<close>.
\<close>

definition build_content ::
    "int \<Rightarrow> int \<Rightarrow> (string \<times> string list) list \<Rightarrow> flowable list" where
  "build_content cycles repetitions sections =
     cycle_loop (py_range cycles) repetitions sections title_page"

definition generate_pdf_content :: "flowable list" where
  "generate_pdf_content = build_content 20 200 generate_massive_research_sections"

text \<open>
  An expanded paragraph in the document: a paragraph in the normal style whose text ends
  with the last clause of the expansion. The headings of the document, in order.
\<close>

definition is_expanded :: "flowable \<Rightarrow> bool" where
  "is_expanded f =
     (case f of Paragraph txt sty \<Rightarrow> sty = Normal \<and> endswith txt deployment_clause
      | _ \<Rightarrow> False)"

definition expanded_count :: "flowable list \<Rightarrow> nat" where
  "expanded_count content = length (filter is_expanded content)"

fun heading_of :: "flowable \<Rightarrow> string list" where
  "heading_of (Paragraph txt CustomHeading) = [txt]"
| "heading_of _ = []"

definition headings :: "flowable list \<Rightarrow> string list" where
  "headings content = concat (map heading_of content)"

section \<open>Python floats (split_pdf.py: the token estimate)\<close>

text \<open>
  A finite Python float is an IEEE 754 double: a rational with 53 significant bits.
  Literals, the conversion of an integer and every arithmetic operation round the exact
  result to the nearest double, ties to the even significand. The exponent range of the
  doubles is not modelled: the values below come from \<open>len(text)\<close>, which is less than
  \<open>2\<^sup>6\<^sup>3\<close>, divided by 3.8, far from overflow and underflow.
\<close>

definition pow2 :: "int \<Rightarrow> rat" where
  "pow2 e = (if 0 \<le> e then 2 ^ nat e else 1 / 2 ^ nat (- e))"

text \<open>\<open>\<lfloor>log\<^sub>2 x\<rfloor>\<close> for a positive rational: the binary exponent of \<open>x\<close>.\<close>

definition ilog2 :: "rat \<Rightarrow> int" where
  "ilog2 x = (if 1 \<le> x then bitlen \<lfloor>x\<rfloor> - 1 else - bitlen (\<lceil>1 / x\<rceil> - 1))"

definition round_half_even :: "rat \<Rightarrow> int" where
  "round_half_even y =
     (let m = \<lfloor>y\<rfloor>; r = y - of_int m
      in if r < 1 / 2 then m else if 1 / 2 < r then m + 1 else if even m then m else m + 1)"

definition round_double :: "rat \<Rightarrow> rat" where
  "round_double x =
     (if x = 0 then 0
      else let ulp = pow2 (ilog2 \<bar>x\<bar> - 52) in of_int (round_half_even (x / ulp)) * ulp)"

text \<open>The literal \<open>3.8\<close>, \<open>int / float\<close> (the integer is converted first) and \<open>int(x)\<close>
  (truncation towards zero). The divisor is never zero here.\<close>

definition float_3_8 :: rat where
  "float_3_8 = round_double (38 / 10)"

definition int_truediv_float :: "int \<Rightarrow> rat \<Rightarrow> rat" where
  "int_truediv_float a y = round_double (round_double (of_int a) / y)"

definition py_int :: "rat \<Rightarrow> int" where
  "py_int x = (if 0 \<le> x then \<lfloor>x\<rfloor> else \<lceil>x\<rceil>)"

text \<open>\<open>token_estimate = max(1, int(char_count / 3.8))\<close>, for \<open>char_count = len(text)\<close>.\<close>

definition token_estimate :: "int \<Rightarrow> int" where
  "token_estimate char_count = max 1 (py_int (int_truediv_float char_count float_3_8))"

section \<open>Files, directories and the PDF library (split_pdf.py)\<close>

text \<open>
  The file system is an association list from absolute paths, given as their lists of
  components (the root is the empty list), to nodes. A path string is resolved as the
  system does it, component by component from the root or from the working directory:
  every step starts in an existing directory, \<open>.\<close> stays there, \<open>..\<close> goes to the parent,
  a name goes to the entry of that name, which may be missing. So \<open>x\<close>, \<open>./x\<close>, \<open>a/../x\<close>
  (when \<open>a\<close> is a directory) and the absolute path of \<open>x\<close> name the same node. POSIX
  paths are modelled; links, permissions and full disks are not.
\<close>

datatype error =
    FileNotFoundError
  | FileExistsError
  | IsADirectoryError
  | NotADirectoryError
  | PdfReadError
  | IndexError
  | ZeroDivisionError

datatype node = File string | Dir

type_synonym file_system = "(string list \<times> node) list"

fun split_slash :: "string \<Rightarrow> string list" where
  "split_slash [] = [[]]"
| "split_slash (c # cs) =
     (if c = CHR ''/'' then [] # split_slash cs
      else (case split_slash cs of [] \<Rightarrow> [[c]] | w # ws \<Rightarrow> (c # w) # ws))"

definition components :: "string \<Rightarrow> string list" where
  "components p = filter (\<lambda>c. c \<noteq> []) (split_slash p)"

definition is_dir :: "file_system \<Rightarrow> string list \<Rightarrow> bool" where
  "is_dir fs k = (k = [] \<or> map_of fs k = Some Dir)"

definition node_at :: "file_system \<Rightarrow> string list \<Rightarrow> node option" where
  "node_at fs k = (if k = [] then Some Dir else map_of fs k)"

definition not_a_dir :: "file_system \<Rightarrow> string list \<Rightarrow> error" where
  "not_a_dir fs k =
     (case map_of fs k of Some (File b) \<Rightarrow> NotADirectoryError | _ \<Rightarrow> FileNotFoundError)"

fun walk :: "file_system \<Rightarrow> string list \<Rightarrow> string list \<Rightarrow> error + string list" where
  "walk fs cur [] = Inr cur"
| "walk fs cur (c # cs) =
     (if \<not> is_dir fs cur then Inl (not_a_dir fs cur)
      else if c = ''.'' then walk fs cur cs
      else if c = ''..'' then walk fs (butlast cur) cs
      else walk fs (cur @ [c]) cs)"

definition start_of :: "string list \<Rightarrow> string \<Rightarrow> string list" where
  "start_of wd p = (if startswith p ''/'' then [] else wd)"

definition resolve :: "string list \<Rightarrow> file_system \<Rightarrow> string \<Rightarrow> error + string list" where
  "resolve wd fs p =
     (if p = [] then Inl FileNotFoundError
      else (case walk fs (start_of wd p) (components p) of
              Inl e \<Rightarrow> Inl e
            | Inr k \<Rightarrow>
                if endswith p ''/'' \<and> \<not> is_dir fs k then Inl (not_a_dir fs k) else Inr k))"

text \<open>\<open>os.path.exists(p)\<close> is \<open>lookup wd fs p \<noteq> None\<close>.\<close>

definition lookup :: "string list \<Rightarrow> file_system \<Rightarrow> string \<Rightarrow> node option" where
  "lookup wd fs p = (case resolve wd fs p of Inl e \<Rightarrow> None | Inr k \<Rightarrow> node_at fs k)"

text \<open>\<open>os.path.join\<close> (POSIX) for two components.\<close>

definition path_join :: "string \<Rightarrow> string \<Rightarrow> string" where
  "path_join a b =
     (if startswith b ''/'' then b
      else if a = [] \<or> endswith a ''/'' then a @ b
      else a @ ''/'' @ b)"

text \<open>
  \<open>os.makedirs(name)\<close>: the path is walked and every missing directory on it is
  created; a regular file on the way makes it fail, and so does a last component that
  is there already. The directories made before a failure stay, so the result is the
  error, if any, with the file system reached.
\<close>

fun mkwalk ::
    "file_system \<Rightarrow> string list \<Rightarrow> string list \<Rightarrow> error option \<times> file_system" where
  "mkwalk fs cur [] = (Some FileExistsError, fs)"
| "mkwalk fs cur (c # cs) =
     (if \<not> is_dir fs cur then (Some (not_a_dir fs cur), fs)
      else if c = ''.'' then (if cs = [] then (None, fs) else mkwalk fs cur cs)
      else if c = ''..'' then
        (if cs = [] then (Some FileExistsError, fs) else mkwalk fs (butlast cur) cs)
      else (case map_of fs (cur @ [c]) of
              None \<Rightarrow>
                (if cs = [] then (None, AList.update (cur @ [c]) Dir fs)
                 else mkwalk (AList.update (cur @ [c]) Dir fs) (cur @ [c]) cs)
            | Some Dir \<Rightarrow>
                (if cs = [] then (Some FileExistsError, fs) else mkwalk fs (cur @ [c]) cs)
            | Some (File b) \<Rightarrow>
                (if cs = [] then (Some FileExistsError, fs) else (Some NotADirectoryError, fs))))"

definition makedirs ::
    "string list \<Rightarrow> string \<Rightarrow> file_system \<Rightarrow> error option \<times> file_system" where
  "makedirs wd name fs =
     (if name = [] then (Some FileNotFoundError, fs)
      else mkwalk fs (start_of wd name) (components name))"

text \<open>
  \<open>open(path, 'rb')\<close> gives the node of the file, which the open file keeps whatever is
  written to it later; \<open>read_file\<close> is opening and reading in one step.
  \<open>open(path, 'wb')\<close> with the bytes written creates the file or replaces its content.
\<close>

definition open_file :: "string list \<Rightarrow> file_system \<Rightarrow> string \<Rightarrow> error + string list" where
  "open_file wd fs p =
     (case resolve wd fs p of
        Inl e \<Rightarrow> Inl e
      | Inr k \<Rightarrow>
          (case node_at fs k of
             None \<Rightarrow> Inl FileNotFoundError
           | Some Dir \<Rightarrow> Inl IsADirectoryError
           | Some (File b) \<Rightarrow> Inr k))"

definition read_file :: "string list \<Rightarrow> file_system \<Rightarrow> string \<Rightarrow> error + string" where
  "read_file wd fs p =
     (case open_file wd fs p of
        Inl e \<Rightarrow> Inl e
      | Inr k \<Rightarrow> (case map_of fs k of Some (File b) \<Rightarrow> Inr b | _ \<Rightarrow> Inl FileNotFoundError))"

definition write_file ::
    "string list \<Rightarrow> string \<Rightarrow> string \<Rightarrow> file_system \<Rightarrow> error + file_system" where
  "write_file wd p b fs =
     (case resolve wd fs p of
        Inl e \<Rightarrow> Inl e
      | Inr k \<Rightarrow> if is_dir fs k then Inl IsADirectoryError else Inr (AList.update k (File b) fs))"

text \<open>
  \<open>os.listdir\<close>: the names in a directory, in no particular order (a name is not empty,
  holds no separator and is neither \<open>.\<close> nor \<open>..\<close>). \<open>os.path.getsize\<close>: the size the
  system reports for a directory is left open.
\<close>

definition valid_name :: "string \<Rightarrow> bool" where
  "valid_name n = (n \<noteq> [] \<and> CHR ''/'' \<notin> set n \<and> n \<noteq> ''.'' \<and> n \<noteq> ''..'')"

definition listdir :: "string list \<Rightarrow> file_system \<Rightarrow> string \<Rightarrow> error + string list" where
  "listdir wd fs d =
     (case resolve wd fs d of
        Inl e \<Rightarrow> Inl e
      | Inr k \<Rightarrow>
          (case node_at fs k of
             None \<Rightarrow> Inl FileNotFoundError
           | Some (File b) \<Rightarrow> Inl NotADirectoryError
           | Some Dir \<Rightarrow>
               Inr (remdups (map (\<lambda>k'. last k')
                      (filter (\<lambda>k'. k' \<noteq> [] \<and> butlast k' = k \<and> valid_name (last k'))
                         (map fst fs))))))"

definition getsize :: "string list \<Rightarrow> file_system \<Rightarrow> string \<Rightarrow> error + nat option" where
  "getsize wd fs p =
     (case resolve wd fs p of
        Inl e \<Rightarrow> Inl e
      | Inr k \<Rightarrow>
          (case node_at fs k of
             None \<Rightarrow> Inl FileNotFoundError
           | Some Dir \<Rightarrow> Inr None
           | Some (File b) \<Rightarrow> Inr (Some (length b))))"

text \<open>
  The PDF library, as far as the scripts use it: \<open>PdfReader(file).pages\<close> (\<^term>\<open>None\<close>
  when the bytes are not a readable document), \<open>PdfWriter\<close> with the pages added to it
  and \<open>write\<close>, and \<open>page.extract_text()\<close>. What the writer writes may depend on the
  moment of the call, the first argument of \<open>write_pages\<close>: nothing in the scripts makes
  two writes of one page give the same bytes.
\<close>

record 'p pdf_library =
  read_pages :: "string \<Rightarrow> 'p list option"
  write_pages :: "nat \<Rightarrow> 'p list \<Rightarrow> string"
  extract_text :: "'p \<Rightarrow> string"

text \<open>What the scripts print, without the number formatting.\<close>

datatype event =
    Splitting string nat
  | Created string "nat option"
  | Split_complete nat string
  | Directory_contents
  | Listed string "nat option"
  | Extracting nat
  | Page_stats string int int
  | Extraction_complete
  | Total_characters int
  | Total_tokens int
  | Average_tokens int

text \<open>The world of a run: the working directory, the files, the lines printed and the
  number of documents written so far.\<close>

record world =
  cwd :: "string list"
  files :: file_system
  console :: "event list"
  clock :: nat

definition emit :: "event \<Rightarrow> world \<Rightarrow> world" where
  "emit e w = w\<lparr>console := console w @ [e]\<rparr>"

text \<open>A call returns a value in a world, or raises an error in the world it has reached.\<close>

datatype 'a outcome = Returned 'a world | Raised error world

fun world_of :: "'a outcome \<Rightarrow> world" where
  "world_of (Returned x w) = w"
| "world_of (Raised e w) = w"

section \<open>Page splitter (split_pdf.py)\<close>

definition page_filename :: "nat \<Rightarrow> string" where
  "page_filename page_num = ''page_'' @ format_03d (page_num + 1) @ ''.pdf''"

text \<open>The value of a string of decimal digits, to read a page number back from its name.\<close>

definition nat_of_digits :: "string \<Rightarrow> nat" where
  "nat_of_digits s = foldl (\<lambda>a c. 10 * a + (of_char c - 48)) 0 s"

text \<open>
  \<open>pdf_reader.pages\<close> on the open file: the reader takes the pages from the file when
  they are asked for, so from the bytes the file holds at that moment.
\<close>

definition reader_pages ::
    "'p pdf_library \<Rightarrow> file_system \<Rightarrow> string list \<Rightarrow> error + 'p list" where
  "reader_pages lib fs file =
     (case map_of fs file of
        Some (File bytes) \<Rightarrow>
          (case read_pages lib bytes of None \<Rightarrow> Inl PdfReadError | Some pages \<Rightarrow> Inr pages)
      | _ \<Rightarrow> Inl PdfReadError)"

text \<open>\<open>for page_num in range(total_pages)\<close>: one writer, one page, one file.\<close>

fun page_loop ::
    "'p pdf_library \<Rightarrow> string list \<Rightarrow> string \<Rightarrow> nat list \<Rightarrow> world \<Rightarrow> unit outcome" where
  "page_loop lib file output_dir [] w = Returned () w"
| "page_loop lib file output_dir (page_num # rest) w =
     (case reader_pages lib (files w) file of
        Inl e \<Rightarrow> Raised e w
      | Inr pages \<Rightarrow>
          if \<not> page_num < length pages then Raised IndexError w
          else
            let pdf_writer = [pages ! page_num];
                output_filename = page_filename page_num;
                output_path = path_join output_dir output_filename
            in (case write_file (cwd w) output_path (write_pages lib (clock w) pdf_writer)
                       (files w) of
                  Inl e \<Rightarrow> Raised e w
                | Inr fs \<Rightarrow>
                    let w = w\<lparr>files := fs, clock := clock w + 1\<rparr>
                    in (case getsize (cwd w) (files w) output_path of
                          Inl e \<Rightarrow> Raised e w
                        | Inr page_size \<Rightarrow>
                            page_loop lib file output_dir rest
                              (emit (Created output_filename page_size) w))))"

text \<open>\<open>for file in sorted(os.listdir(output_dir))\<close>: the closing listing.\<close>

fun listing_loop :: "string \<Rightarrow> string list \<Rightarrow> world \<Rightarrow> unit outcome" where
  "listing_loop output_dir [] w = Returned () w"
| "listing_loop output_dir (file # rest) w =
     (if endswith file ''.pdf'' then
        (case getsize (cwd w) (files w) (path_join output_dir file) of
           Inl e \<Rightarrow> Raised e w
         | Inr size_bytes \<Rightarrow> listing_loop output_dir rest (emit (Listed file size_bytes) w))
      else listing_loop output_dir rest w)"

text \<open>\<open>if not os.path.exists(dir): os.makedirs(dir)\<close>.\<close>

definition ensure_dir ::
    "string list \<Rightarrow> string \<Rightarrow> file_system \<Rightarrow> error option \<times> file_system" where
  "ensure_dir wd dir fs = (if lookup wd fs dir = None then makedirs wd dir fs else (None, fs))"

definition split_pdf :: "'p pdf_library \<Rightarrow> string \<Rightarrow> string \<Rightarrow> world \<Rightarrow> unit outcome" where
  "split_pdf lib input_path output_dir w =
     (case ensure_dir (cwd w) output_dir (files w) of
        (Some e, fs) \<Rightarrow> Raised e (w\<lparr>files := fs\<rparr>)
      | (None, fs) \<Rightarrow>
          let w = w\<lparr>files := fs\<rparr>
          in (case open_file (cwd w) (files w) input_path of
                Inl e \<Rightarrow> Raised e w
              | Inr file \<Rightarrow>
                  (case reader_pages lib (files w) file of
                     Inl e \<Rightarrow> Raised e w
                   | Inr pages \<Rightarrow>
                       let total_pages = length pages;
                           w = emit (Splitting input_path total_pages) w
                       in (case page_loop lib file output_dir (py_range (int total_pages)) w of
                             Raised e w \<Rightarrow> Raised e w
                           | Returned u w \<Rightarrow>
                               let w = emit (Split_complete total_pages output_dir) w;
                                   w = emit Directory_contents w
                               in (case listdir (cwd w) (files w) output_dir of
                                     Inl e \<Rightarrow> Raised e w
                                   | Inr names \<Rightarrow> listing_loop output_dir (sort names) w)))))"

section \<open>Text extractor (split_pdf.py)\<close>

text \<open>The body of \<open>for pdf_file in pdf_files\<close>, with the two running totals.\<close>

fun extract_loop ::
    "'p pdf_library \<Rightarrow> string \<Rightarrow> string \<Rightarrow> string list \<Rightarrow> int \<times> int \<Rightarrow> world
       \<Rightarrow> (int \<times> int) outcome" where
  "extract_loop lib output_dir text_dir [] totals w = Returned totals w"
| "extract_loop lib output_dir text_dir (pdf_file # rest) totals w =
     (let pdf_path = path_join output_dir pdf_file
      in case read_file (cwd w) (files w) pdf_path of
           Inl e \<Rightarrow> Raised e w
         | Inr bytes \<Rightarrow>
             (case read_pages lib bytes of
                None \<Rightarrow> Raised PdfReadError w
              | Some [] \<Rightarrow> Raised IndexError w
              | Some (page # others) \<Rightarrow>
                  let text = extract_text lib page;
                      text_filename = replace pdf_file ''.pdf'' ''.txt'';
                      text_path = path_join text_dir text_filename
                  in (case write_file (cwd w) text_path text (files w) of
                        Inl e \<Rightarrow> Raised e w
                      | Inr fs \<Rightarrow>
                          let char_count = int (length text);
                              token_estimate = token_estimate char_count;
                              total_chars = fst totals + char_count;
                              total_tokens = snd totals + token_estimate
                          in extract_loop lib output_dir text_dir rest (total_chars, total_tokens)
                               (emit (Page_stats text_filename char_count token_estimate)
                                  (w\<lparr>files := fs\<rparr>)))))"

definition extract_text_from_pages ::
    "'p pdf_library \<Rightarrow> string \<Rightarrow> string \<Rightarrow> world \<Rightarrow> unit outcome" where
  "extract_text_from_pages lib output_dir text_dir w =
     (case ensure_dir (cwd w) text_dir (files w) of
        (Some e, fs) \<Rightarrow> Raised e (w\<lparr>files := fs\<rparr>)
      | (None, fs) \<Rightarrow>
          let w = w\<lparr>files := fs\<rparr>
          in (case listdir (cwd w) (files w) output_dir of
                Inl e \<Rightarrow> Raised e w
              | Inr names \<Rightarrow>
                  let pdf_files = sort (filter (\<lambda>f. endswith f ''.pdf'') names);
                      w = emit (Extracting (length pdf_files)) w
                  in (case extract_loop lib output_dir text_dir pdf_files (0, 0) w of
                        Raised e w \<Rightarrow> Raised e w
                      | Returned (total_chars, total_tokens) w \<Rightarrow>
                          let w = emit Extraction_complete w;
                              w = emit (Total_characters total_chars) w;
                              w = emit (Total_tokens total_tokens) w
                          in if pdf_files = [] then Raised ZeroDivisionError w
                             else Returned ()
                                    (emit (Average_tokens (total_tokens div int (length pdf_files))) w))))"

text \<open>
  The name the specification asks for: the base name of the page file with the extension
  \<open>.txt\<close>.
\<close>

definition sibling_text_name :: "string \<Rightarrow> string" where
  "sibling_text_name pdf_file = take (length pdf_file - 4) pdf_file @ ''.txt''"

text \<open>
  A miniature PDF library to run the model on concrete files: a document is the header
  \<open>%PDF\<close> followed by one byte for each page, and the text of a page is that byte.
\<close>

definition demo_library :: "string pdf_library" where
  "demo_library =
     \<lparr>read_pages = (\<lambda>b. if startswith b ''%PDF'' then Some (map (\<lambda>c. [c]) (drop 4 b)) else None),
      write_pages = (\<lambda>t ps. ''%PDF'' @ concat ps),
      extract_text = (\<lambda>p. p)\<rparr>"

section \<open>Properties of the content generator and the document builder\<close>

lemma repetition_loop_eq:
  "repetition_loop b iterations expanded = expanded @ map (detailed b) iterations"
  by (induction iterations arbitrary: expanded) simp_all

lemma content_loop_eq:
  "content_loop bs r expanded =
     expanded @ concat (map (\<lambda>b. map (detailed b) (py_range r)) bs)"
  by (induction bs arbitrary: expanded) (simp_all add: repetition_loop_eq)

lemma create_detailed_paragraphs_eq:
  "create_detailed_paragraphs bs (Some r) = concat (map (\<lambda>b. map (detailed b) (py_range r)) bs)"
  by (simp add: create_detailed_paragraphs_def content_loop_eq)

lemma length_py_range: "length (py_range r) = nat r"
  by (simp add: py_range_def)

lemma length_content_loop:
  "length (content_loop bs r expanded) = length expanded + length bs * nat r"
  by (induction bs arbitrary: expanded)
     (simp_all add: repetition_loop_eq length_py_range)

lemma length_create_detailed_paragraphs:
  "length (create_detailed_paragraphs bs (Some r)) = length bs * nat r"
  by (simp add: create_detailed_paragraphs_def length_content_loop)

lemma length_create_detailed_paragraphs_default:
  "length (create_detailed_paragraphs bs None) = length bs * 300"
  by (simp add: create_detailed_paragraphs_def length_content_loop default_repetitions_def)

lemma endswith_append: "endswith (xs @ p) p"
  by (simp add: endswith_def)

lemma detailed_endswith: "endswith (detailed b i) deployment_clause"
proof -
  obtain xs where "detailed b i = xs @ deployment_clause"
    by (simp add: detailed_def Let_def)
  then show ?thesis by (simp add: endswith_append)
qed

lemma create_detailed_paragraphs_endswith:
  "p \<in> set (create_detailed_paragraphs bs (Some r)) \<Longrightarrow> endswith p deployment_clause"
  by (auto simp: create_detailed_paragraphs_eq detailed_endswith)

lemma endswith_last:
  assumes "endswith s p" and "p \<noteq> []"
  shows "s \<noteq> [] \<and> last s = last p"
proof -
  from assms have le: "length p \<le> length s" and d: "drop (length s - length p) s = p"
    by (simp_all add: endswith_def)
  from le assms(2) have ne: "s \<noteq> []" by auto
  have "last s = last (drop (length s - length p) s)"
    using le assms(2) ne by (simp add: last_drop)
  with d ne show ?thesis by simp
qed

lemma last_deployment_clause: "deployment_clause \<noteq> [] \<and> last deployment_clause = CHR '' ''"
  by (simp add: deployment_clause_def)

lemma strip_last: "strip s \<noteq> [] \<Longrightarrow> \<not> is_space (last (strip s))"
proof -
  assume ne: "strip s \<noteq> []"
  define t where "t = dropWhile is_space (rev (dropWhile is_space s))"
  have st: "strip s = rev t" by (simp add: strip_def t_def)
  with ne have tne: "t \<noteq> []" by simp
  have "\<not> is_space (hd t)" unfolding t_def using tne hd_dropWhile t_def by metis
  moreover have "last (rev t) = hd t" using tne by (simp add: last_rev)
  ultimately show ?thesis by (simp add: st)
qed

lemma experimental_text_not_expanded: "\<not> endswith (experimental_text c) deployment_clause"
proof
  assume e: "endswith (experimental_text c) deployment_clause"
  from endswith_last [OF e] last_deployment_clause
  have ne: "experimental_text c \<noteq> []" and l: "last (experimental_text c) = CHR '' ''" by simp_all
  from ne have "\<not> is_space (last (experimental_text c))"
    unfolding experimental_text_def by (rule strip_last)
  with l show False by (simp add: is_space_def)
qed

lemma expanded_count_append [simp]:
  "expanded_count (xs @ ys) = expanded_count xs + expanded_count ys"
  by (simp add: expanded_count_def)

lemma headings_append [simp]: "headings (xs @ ys) = headings xs @ headings ys"
  by (simp add: headings_def)

lemma paragraph_loop_eq:
  "paragraph_loop ps content =
     content @ concat (map (\<lambda>p. [Paragraph p Normal, Spacer 1 6]) ps)"
  by (induction ps arbitrary: content) simp_all

lemma expanded_count_paragraphs:
  "\<forall>p \<in> set ps. endswith p deployment_clause \<Longrightarrow>
     expanded_count (concat (map (\<lambda>p. [Paragraph p Normal, Spacer 1 6]) ps)) = length ps"
  by (induction ps) (simp_all add: expanded_count_def is_expanded_def)

lemma headings_paragraphs:
  "headings (concat (map (\<lambda>p. [Paragraph p Normal, Spacer 1 6]) ps)) = []"
  by (induction ps) (simp_all add: headings_def)

lemma section_body_eq:
  "section_body c r (t, ss) content =
     content @ [Paragraph (t @ '' - Volume '' @ str_nat (c + 1)) CustomHeading, Spacer 1 12]
       @ concat (map (\<lambda>p. [Paragraph p Normal, Spacer 1 6])
                   (create_detailed_paragraphs ss (Some r)))
       @ [Table table_data, Spacer 1 15, Paragraph (experimental_text c) Normal,
          Spacer 1 10, PageBreak]"
  by (simp add: section_body_def Let_def paragraph_loop_eq)

lemma expanded_count_section_body:
  "expanded_count (section_body c r (t, ss) content) =
     expanded_count content + length ss * nat r"
proof -
  have "\<forall>p \<in> set (create_detailed_paragraphs ss (Some r)). endswith p deployment_clause"
    using create_detailed_paragraphs_endswith by blast
  then have "expanded_count (concat (map (\<lambda>p. [Paragraph p Normal, Spacer 1 6])
          (create_detailed_paragraphs ss (Some r)))) = length ss * nat r"
    by (simp only: expanded_count_paragraphs length_create_detailed_paragraphs)
  moreover have "expanded_count [Paragraph (t @ '' - Volume '' @ str_nat (c + 1)) CustomHeading,
      Spacer 1 12] = 0"
    by (simp add: expanded_count_def is_expanded_def)
  moreover have "expanded_count [Table table_data, Spacer 1 15,
      Paragraph (experimental_text c) Normal, Spacer 1 10, PageBreak] = 0"
    by (simp add: expanded_count_def is_expanded_def experimental_text_not_expanded)
  ultimately show ?thesis
    by (simp only: section_body_eq expanded_count_append)
qed

lemma headings_section_body:
  "headings (section_body c r (t, ss) content) =
     headings content @ [t @ '' - Volume '' @ str_nat (c + 1)]"
  by (simp only: section_body_eq headings_append headings_paragraphs) (simp add: headings_def)

lemma expanded_count_section_loop:
  "expanded_count (section_loop c r secs content) =
     expanded_count content + sum_list (map (\<lambda>item. length (snd item)) secs) * nat r"
proof (induction secs arbitrary: content)
  case Nil
  show ?case by simp
next
  case (Cons item secs)
  obtain t ss where item: "item = (t, ss)" by (cases item)
  show ?case
    by (simp add: Cons.IH item expanded_count_section_body algebra_simps)
qed

lemma headings_section_loop:
  "headings (section_loop c r secs content) =
     headings content @ map (\<lambda>item. fst item @ '' - Volume '' @ str_nat (c + 1)) secs"
proof (induction secs arbitrary: content)
  case Nil
  show ?case by simp
next
  case (Cons item secs)
  obtain t ss where item: "item = (t, ss)" by (cases item)
  show ?case
    by (simp add: Cons.IH item headings_section_body)
qed

lemma expanded_count_cycle_loop:
  "expanded_count (cycle_loop cs r secs content) =
     expanded_count content
       + length cs * sum_list (map (\<lambda>item. length (snd item)) secs) * nat r"
  by (induction cs arbitrary: content)
     (simp_all add: expanded_count_section_loop algebra_simps)

lemma headings_cycle_loop:
  "headings (cycle_loop cs r secs content) =
     headings content
       @ concat (map (\<lambda>c. map (\<lambda>item. fst item @ '' - Volume '' @ str_nat (c + 1)) secs) cs)"
  by (induction cs arbitrary: content) (simp_all add: headings_section_loop)

lemma expanded_count_title_page: "expanded_count title_page = 0"
proof -
  have "\<not> endswith (''A detailed exploration of neural networks, transformers, optimization, '' @
                 ''and applications'') deployment_clause"
    using endswith_last last_deployment_clause by fastforce
  then show ?thesis
    by (simp add: title_page_def expanded_count_def is_expanded_def)
qed

lemma headings_title_page: "headings title_page = []"
  by (simp add: title_page_def headings_def)

lemma expanded_count_build_content:
  "expanded_count (build_content cycles r secs) =
     nat cycles * sum_list (map (\<lambda>item. length (snd item)) secs) * nat r"
  by (simp add: build_content_def expanded_count_cycle_loop expanded_count_title_page
      length_py_range)

lemma sentences_of_sections:
  "sum_list (map (\<lambda>item. length (snd item)) generate_massive_research_sections) = 40"
  by (simp add: generate_massive_research_sections_def)

text \<open>
  Claim C1. For every list of base sentences \<open>S\<close> and every repetition count \<open>R\<close>,
  \<open>create_detailed_paragraphs\<close> returns exactly \<open>len(S) \<times> R\<close> expanded paragraphs (none
  when \<open>R \<le> 0\<close>, as \<open>range(R)\<close> is empty then), and the content built with \<open>C\<close> cycles over
  sections holding \<open>\<Sigma>\<close> base sentences in total contains \<open>C \<times> \<Sigma> \<times> R\<close> expanded
  paragraphs, which is zero when \<open>C = 0\<close> or \<open>R = 0\<close>.
\<close>

theorem paragraph_count:
  "length (create_detailed_paragraphs S (Some R)) = length S * nat R \<and>
   expanded_count (build_content C R sections) =
     nat C * sum_list (map (\<lambda>item. length (snd item)) sections) * nat R \<and>
   expanded_count (build_content 0 R sections) = 0 \<and>
   expanded_count (build_content C 0 sections) = 0"
  by (simp add: length_create_detailed_paragraphs expanded_count_build_content)

text \<open>
  Claim C6. For every base sentence \<open>s\<close> and every repetition count \<open>N\<close>, the expansion of
  \<open>s\<close> consists of \<open>N\<close> paragraphs that are the same string: the loop index does not enter
  the text. Each is the base sentence followed by the same clauses, fixed text around two
  copies of the lower-cased base sentence.
\<close>

theorem expansion_independent_of_index:
  "length (create_detailed_paragraphs [s] (Some N)) = nat N \<and>
   (\<forall>i < nat N. \<forall>j < nat N.
      create_detailed_paragraphs [s] (Some N) ! i = create_detailed_paragraphs [s] (Some N) ! j) \<and>
   (\<forall>p \<in> set (create_detailed_paragraphs [s] (Some N)).
      p = s @ '' '' @ concept_clause @ research_clause @ lower s @ '' '' @ frameworks_clause
            @ hardware_clause @ lower s @ '' '' @ applications_clause @ future_clause
            @ mathematics_clause @ validation_clause @ deployment_clause)"
proof -
  have eq: "create_detailed_paragraphs [s] (Some N) = map (detailed s) (py_range N)"
    by (simp add: create_detailed_paragraphs_eq)
  have d: "detailed s i = detailed s j" for i j
    by (simp add: detailed_def)
  have "create_detailed_paragraphs [s] (Some N) ! i = create_detailed_paragraphs [s] (Some N) ! j"
    if "i < nat N" "j < nat N" for i j
    using that d [of "py_range N ! i" "py_range N ! j"] by (simp add: eq length_py_range)
  moreover have "length (create_detailed_paragraphs [s] (Some N)) = nat N"
    by (simp add: eq length_py_range)
  moreover have "p = s @ '' '' @ concept_clause @ research_clause @ lower s @ '' ''
            @ frameworks_clause @ hardware_clause @ lower s @ '' '' @ applications_clause
            @ future_clause @ mathematics_clause @ validation_clause @ deployment_clause"
    if "p \<in> set (create_detailed_paragraphs [s] (Some N))" for p
    using that by (auto simp: eq detailed_def Let_def)
  ultimately show ?thesis by blast
qed

theorem expansion_independent_of_index_witness:
  "length (create_detailed_paragraphs [''Ab''] (Some 2)) = 2 \<and>
   create_detailed_paragraphs [''Ab''] (Some 2) ! 0 = create_detailed_paragraphs [''Ab''] (Some 2) ! 1 \<and>
   create_detailed_paragraphs [''Ab''] (Some 2) ! 1 =
     ''Ab '' @ concept_clause @ research_clause @ ''ab '' @ frameworks_clause
       @ hardware_clause @ ''ab '' @ applications_clause @ future_clause
       @ mathematics_clause @ validation_clause @ deployment_clause"
proof -
  have n: "create_detailed_paragraphs [''Ab''] (Some 2) ! 1
             \<in> set (create_detailed_paragraphs [''Ab''] (Some 2))"
    by (simp add: length_create_detailed_paragraphs)
  have l: "lower ''Ab'' = ''ab''"
    by code_simp
  from expansion_independent_of_index [of "''Ab''" 2] n l show ?thesis by simp
qed

text \<open>
  Claim C7, as the code has it. \<open>generate_pdf\<close> runs 20 cycles (its headings are the
  section titles labelled Volume 1 to Volume 20, cycle by cycle) and passes
  \<open>repetitions=200\<close> to the expansion, so the document holds \<open>20 \<times> 40 \<times> 200\<close> expanded
  paragraphs; the default of \<open>create_detailed_paragraphs\<close> itself, used when the
  argument is left out, is 300 repetitions for each base sentence.
\<close>

theorem builder_constants:
  "headings generate_pdf_content =
     concat (map (\<lambda>c. map (\<lambda>item. fst item @ '' - Volume '' @ str_nat (c + 1))
                         generate_massive_research_sections) [0..<20]) \<and>
   expanded_count generate_pdf_content = 20 * 40 * 200 \<and>
   generate_pdf_content = build_content 20 200 generate_massive_research_sections \<and>
   length (create_detailed_paragraphs S None) = length S * 300"
  by (simp add: generate_pdf_content_def build_content_def headings_cycle_loop
      headings_title_page expanded_count_cycle_loop expanded_count_title_page
      sentences_of_sections py_range_def length_create_detailed_paragraphs_default)

text \<open>
  Claim C7 as stated fails: left to its default, the expansion repeats a base sentence
  300 times, not 200.
\<close>

theorem default_repetitions_counterexample:
  "length (create_detailed_paragraphs [''A base sentence.''] None) \<noteq> 200"
  by (simp add: length_create_detailed_paragraphs_default)

section \<open>Properties of the float model and the token estimate\<close>

lemma pow2_powi: "pow2 e = 2 powi e"
  by (simp add: pow2_def power_int_def inverse_eq_divide power_one_over)

lemma pow2_pos: "0 < pow2 e"
  by (simp add: pow2_powi)

lemma pow2_split:
  assumes "a \<le> b"
  shows "pow2 b = 2 ^ nat (b - a) * pow2 a"
proof -
  have "pow2 b = (2::rat) powi ((b - a) + a)" by (simp add: pow2_powi)
  also have "\<dots> = 2 powi (b - a) * 2 powi a" by (rule power_int_add) simp
  also have "(2::rat) powi (b - a) = 2 ^ nat (b - a)"
    using assms by (simp add: power_int_def)
  finally show ?thesis by (simp add: pow2_powi)
qed

lemma round_half_even_nearest:
  "\<bar>of_int (round_half_even y) - y\<bar> \<le> \<bar>of_int k - y\<bar>"
proof -
  define m where "m = \<lfloor>y\<rfloor>"
  have lo: "of_int m \<le> y" and hi: "y < of_int m + 1"
    using floor_correct [of y] by (simp_all add: m_def)
  have "k \<le> m \<or> m + 1 \<le> k" by linarith
  then have far: "(of_int k :: rat) \<le> of_int m \<or> (of_int m :: rat) + 1 \<le> of_int k"
  proof
    assume "k \<le> m"
    then show ?thesis by simp
  next
    assume "m + 1 \<le> k"
    then have "(of_int (m + 1) :: rat) \<le> of_int k" by (simp only: of_int_le_iff)
    then show ?thesis by simp
  qed
  consider "y - of_int m < 1 / 2" | "1 / 2 < y - of_int m"
    | "y - of_int m = 1 / 2" "even m" | "y - of_int m = 1 / 2" "odd m"
    by fastforce
  then show ?thesis
  proof cases
    case 1
    then have "round_half_even y = m" by (simp add: round_half_even_def m_def Let_def)
    with 1 lo hi far show ?thesis by auto
  next
    case 2
    then have "round_half_even y = m + 1" by (simp add: round_half_even_def m_def Let_def)
    with 2 lo hi far show ?thesis by auto
  next
    case 3
    then have "round_half_even y = m" by (simp add: round_half_even_def m_def Let_def)
    with 3 lo hi far show ?thesis by auto
  next
    case 4
    then have "round_half_even y = m + 1" by (simp add: round_half_even_def m_def Let_def)
    with 4 lo hi far show ?thesis by auto
  qed
qed

lemma round_double_nearest:
  assumes "x \<noteq> 0"
  shows "\<bar>round_double x - x\<bar> \<le> \<bar>of_int k * pow2 (ilog2 \<bar>x\<bar> - 52) - x\<bar>"
proof -
  define u where "u = pow2 (ilog2 \<bar>x\<bar> - 52)"
  have u: "0 < u" by (simp add: u_def pow2_pos)
  have r: "round_double x = of_int (round_half_even (x / u)) * u"
    using assms by (simp add: round_double_def u_def Let_def)
  have "\<bar>of_int (round_half_even (x / u)) - x / u\<bar> \<le> \<bar>of_int k - x / u\<bar>"
    by (rule round_half_even_nearest)
  then have "\<bar>of_int (round_half_even (x / u)) - x / u\<bar> * u \<le> \<bar>of_int k - x / u\<bar> * u"
    using u by (simp add: mult_right_mono)
  moreover have "\<bar>a - x / u\<bar> * u = \<bar>a * u - x\<bar>" for a
  proof -
    have "\<bar>a - x / u\<bar> * u = \<bar>a - x / u\<bar> * \<bar>u\<bar>" using u by simp
    also have "\<dots> = \<bar>(a - x / u) * u\<bar>" by (simp add: abs_mult)
    also have "(a - x / u) * u = a * u - x" using u by (simp add: field_simps)
    finally show ?thesis .
  qed
  ultimately show ?thesis by (simp add: r u_def)
qed

lemma ilog2_less:
  assumes "0 < x" and "x < 2 ^ N" and "1 \<le> N"
  shows "ilog2 x \<le> int N - 1"
proof (cases "1 \<le> x")
  case True
  have "\<lfloor>x\<rfloor> < 2 ^ N" using assms(2) by (simp add: floor_less_iff)
  then have "bitlen \<lfloor>x\<rfloor> \<le> int N" by (simp add: bitlen_le_iff_power)
  with True show ?thesis by (simp add: ilog2_def)
next
  case False
  have "0 \<le> bitlen (\<lceil>1 / x\<rceil> - 1)" by (rule bitlen_nonneg)
  with False assms(3) show ?thesis by (simp add: ilog2_def)
qed

lemma round_double_grid:
  assumes "0 < x" and "x < 2 ^ N" and "1 \<le> N" and "N + j = 53"
  shows "\<bar>round_double x - x\<bar> \<le> \<bar>of_int k / 2 ^ j - x\<bar>"
proof -
  define e where "e = ilog2 \<bar>x\<bar> - 52"
  have "ilog2 x \<le> int N - 1" using assms(1-3) by (rule ilog2_less)
  with assms(1,4) have le: "e \<le> - int j" by (simp add: e_def)
  define c where "c = nat (- int j - e)"
  have "pow2 (- int j) = 2 ^ c * pow2 e"
    unfolding c_def using le by (rule pow2_split)
  moreover have "pow2 (- int j) = 1 / 2 ^ j"
    by (simp add: pow2_def)
  ultimately have "1 / 2 ^ j = 2 ^ c * pow2 e"
    by (simp only:)
  then have "of_int k * (1 / 2 ^ j) = of_int k * (2 ^ c * pow2 e)"
    by (simp only:)
  then have "of_int k / 2 ^ j = of_int (k * 2 ^ c) * pow2 e"
    by (simp add: mult.assoc)
  moreover have "\<bar>round_double x - x\<bar> \<le> \<bar>of_int (k * 2 ^ c) * pow2 e - x\<bar>"
    unfolding e_def using assms(1) by (intro round_double_nearest) simp
  ultimately show ?thesis by simp
qed

lemma round_double_of_int:
  assumes "0 \<le> n" and "n < 2 ^ 53"
  shows "round_double (of_int n) = of_int n"
proof (cases "n = 0")
  case True
  then show ?thesis by (simp add: round_double_def)
next
  case False
  with assms have pos: "(0::rat) < of_int n" by simp
  from assms(2) have "(of_int n :: rat) < of_int (2 ^ 53)" by (simp only: of_int_less_iff)
  then have lt: "(of_int n :: rat) < 2 ^ 53" by simp
  have "\<bar>round_double (of_int n) - of_int n\<bar> \<le> \<bar>of_int n / 2 ^ 0 - (of_int n :: rat)\<bar>"
    using pos lt by (rule round_double_grid) simp_all
  then show ?thesis by simp
qed

lemma float_3_8_value: "float_3_8 = 4278419646001971 / 2 ^ 50"
  by code_simp

lemma token_estimate_exact:
  assumes "0 \<le> n" and "n \<le> 10 ^ 15"
  shows "token_estimate n = max 1 (5 * n div 19)"
proof (cases "n = 0")
  case True
  then show ?thesis
    by (simp add: token_estimate_def int_truediv_float_def round_double_def py_int_def)
next
  case False
  with assms have n: "1 \<le> n" by simp
  define N :: rat where "N = of_int n"
  have N1: "1 \<le> N"
    using n unfolding N_def by simp
  from assms(2) have "(of_int n :: rat) \<le> of_int (10 ^ 15)"
    by (simp only: of_int_le_iff)
  then have N15: "N \<le> 10 ^ 15"
    unfolding N_def by simp
  define q where "q = N / float_3_8"
  define fl where "fl = 5 * n div 19"
  define F :: rat where "F = of_int fl"
  have "n < 2 ^ 53" using assms(2) by simp
  with assms(1) have conv: "round_double (of_int n) = N"
    unfolding N_def by (rule round_double_of_int)
  have q_eq: "q = N * 1125899906842624 / 4278419646001971"
    by (simp add: q_def float_3_8_value)
  have q_pos: "0 < q" using N1 by (simp add: q_eq)
  have q_lt: "q < 2 ^ 49" using N15 by (simp add: q_eq)
  have dm: "5 * n = 19 * fl + 5 * n mod 19"
    by (simp add: fl_def)
  have m0: "0 \<le> 5 * n mod 19" and m18: "5 * n mod 19 \<le> 18" by simp_all
  define M :: rat where "M = of_int (5 * n mod 19)"
  have M0: "0 \<le> M"
    using m0 unfolding M_def by (simp only: of_int_0_le_iff)
  from m18 have "(of_int (5 * n mod 19) :: rat) \<le> of_int 18"
    by (simp only: of_int_le_iff)
  then have M18: "M \<le> 18"
    unfolding M_def by simp
  have "(of_int (5 * n) :: rat) = of_int (19 * fl + 5 * n mod 19)"
    using dm by (simp only:)
  then have t: "5 * N = 19 * F + M"
    by (simp add: N_def F_def M_def)
  have F_le: "F \<le> q" using t M0 N1 by (simp add: q_eq)
  have q_up: "q + 1 / 32 < F + 1" using t M18 N15 by (simp add: q_eq)
  define r where "r = round_double q"
  have "\<bar>r - q\<bar> \<le> \<bar>of_int (16 * fl) / 2 ^ 4 - q\<bar>"
    unfolding r_def using q_pos q_lt by (rule round_double_grid) simp_all
  then have "\<bar>r - q\<bar> \<le> \<bar>F - q\<bar>" by (simp add: F_def)
  with F_le have lower: "F \<le> r" by linarith
  define K :: rat where "K = of_int (round (16 * q))"
  have "\<bar>r - q\<bar> \<le> \<bar>K / 2 ^ 4 - q\<bar>"
    unfolding r_def K_def using q_pos q_lt by (rule round_double_grid) simp_all
  moreover have "K / 2 ^ 4 - q = (K - 16 * q) / 16"
    by (simp add: field_simps)
  moreover have "\<bar>K - 16 * q\<bar> \<le> 1 / 2"
    unfolding K_def by (rule of_int_round_abs_le)
  ultimately have "\<bar>r - q\<bar> \<le> 1 / 32"
    by (simp only: abs_divide) simp
  with q_up have upper: "r < F + 1" by linarith
  have "\<lfloor>r\<rfloor> = fl"
    using lower upper unfolding F_def by (intro floor_unique) simp_all
  moreover have "0 \<le> fl" using assms(1) by (simp add: fl_def)
  then have "0 \<le> F" by (simp add: F_def)
  with lower have "0 \<le> r" by simp
  ultimately have "py_int r = fl" by (simp add: py_int_def)
  then show ?thesis
    by (simp add: token_estimate_def int_truediv_float_def conv r_def q_def fl_def)
qed

lemma exact_quotient: "\<lfloor>(of_int n :: rat) / (38 / 10)\<rfloor> = 5 * n div 19"
proof -
  have "(of_int n :: rat) / (38 / 10) = of_int (5 * n) / of_int 19" by simp
  then show ?thesis by (simp only: floor_divide_of_int_eq)
qed

text \<open>
  Claim C2, as the code has it. For every character count \<open>n\<close> the estimate is at least
  1, and it is 1 for the empty text. For \<open>0 \<le> n \<le> 10\<^sup>1\<^sup>5\<close> the estimate is
  \<open>max(1, \<lfloor>n / 3.8\<rfloor>)\<close> with the exact quotient: up to there the double-precision
  quotient \<open>n / 3.8\<close> has the same integer part as the exact one.
\<close>

theorem token_estimate_floor:
  "1 \<le> token_estimate n \<and>
   token_estimate 0 = 1 \<and>
   (0 \<le> n \<and> n \<le> 10 ^ 15 \<longrightarrow>
      token_estimate n = max 1 \<lfloor>(of_int n :: rat) / (38 / 10)\<rfloor>)"
proof -
  have "1 \<le> token_estimate n"
    by (simp add: token_estimate_def)
  moreover have "token_estimate 0 = 1"
    using token_estimate_exact [of 0] by simp
  moreover have "token_estimate n = max 1 \<lfloor>(of_int n :: rat) / (38 / 10)\<rfloor>"
    if "0 \<le> n" "n \<le> 10 ^ 15"
    using that by (simp only: token_estimate_exact exact_quotient)
  ultimately show ?thesis by blast
qed

theorem token_estimate_floor_witness:
  "(0::int) \<le> 1000 \<and> (1000::int) \<le> 10 ^ 15 \<and>
   token_estimate 1000 = max 1 \<lfloor>(1000::rat) / (38 / 10)\<rfloor> \<and> 1 \<le> token_estimate 1000"
  using token_estimate_floor [of 1000] by simp

text \<open>
  Claim C2 as stated, for every \<open>n \<ge> 0\<close>, fails in double precision: for a text of
  \<open>2000000000000018\<close> characters the quotient rounds up to the next integer, and the
  estimate is one more than \<open>\<lfloor>n / 3.8\<rfloor>\<close>.
\<close>

theorem token_estimate_counterexample:
  "token_estimate 2000000000000018 \<noteq> max 1 \<lfloor>(of_int 2000000000000018 :: rat) / (38 / 10)\<rfloor>"
  by code_simp

section \<open>Properties of paths and of the file system\<close>

lemma split_slash_nonempty: "split_slash s \<noteq> []"
  by (induction s) (auto split: list.splits)

lemma split_slash_append:
  "split_slash (a @ CHR ''/'' # b) = split_slash a @ split_slash b"
proof (induction a)
  case Nil
  show ?case by simp
next
  case (Cons c a)
  obtain w ws where ws: "split_slash a = w # ws"
    using split_slash_nonempty [of a] by (cases "split_slash a") auto
  show ?case
    by (simp add: Cons.IH ws)
qed

lemma split_slash_name: "CHR ''/'' \<notin> set s \<Longrightarrow> split_slash s = [s]"
  by (induction s) auto

lemma startswith_append: "d \<noteq> [] \<Longrightarrow> startswith (d @ s) ''/'' = startswith d ''/''"
  by (cases d) (simp_all add: startswith_def)

lemma valid_name_parts:
  assumes "valid_name name"
  shows "name \<noteq> []" and "CHR ''/'' \<notin> set name" and "name \<noteq> ''.''" and "name \<noteq> ''..''"
    and "\<not> startswith name ''/''"
proof -
  from assms show ne: "name \<noteq> []" and ns: "CHR ''/'' \<notin> set name"
    and "name \<noteq> ''.''" and "name \<noteq> ''..''"
    by (simp_all add: valid_name_def)
  from ne ns show "\<not> startswith name ''/''"
    by (cases name) (auto simp: startswith_def)
qed

lemma components_name: "valid_name name \<Longrightarrow> components name = [name]"
  by (simp add: components_def split_slash_name valid_name_parts)

lemma components_join:
  assumes "valid_name name"
  shows "components (path_join d name) = components d @ [name]"
proof -
  note v = valid_name_parts [OF assms]
  consider "d = []" | "d \<noteq> []" "endswith d ''/''" | "d \<noteq> []" "\<not> endswith d ''/''"
    by blast
  then show ?thesis
  proof cases
    case 1
    then show ?thesis
      using v by (simp add: path_join_def components_def split_slash_name)
  next
    case 2
    then have "last d = CHR ''/''"
      using endswith_last [of d "''/''"] by simp
    with 2 have d: "d = butlast d @ ''/''"
      by (metis append_butlast_last_id)
    have "split_slash (d @ name) = split_slash (butlast d) @ [name]"
      by (subst d) (simp add: split_slash_append split_slash_name v)
    moreover have "split_slash d = split_slash (butlast d) @ [[]]"
      by (subst d) (simp add: split_slash_append)
    ultimately show ?thesis
      using 2 v by (simp add: path_join_def components_def)
  next
    case 3
    have "split_slash (d @ CHR ''/'' # name) = split_slash d @ [name]"
      by (simp add: split_slash_append split_slash_name v)
    then show ?thesis
      using 3 v by (simp add: path_join_def components_def)
  qed
qed

lemma start_of_join:
  assumes "valid_name name" and "d \<noteq> []"
  shows "start_of wd (path_join d name) = start_of wd d"
  using assms valid_name_parts [OF assms(1)]
  by (simp add: start_of_def path_join_def startswith_append)

lemma join_no_trailing_slash:
  assumes "valid_name name"
  shows "path_join d name \<noteq> [] \<and> \<not> endswith (path_join d name) ''/''"
proof -
  note v = valid_name_parts [OF assms]
  have l: "last (path_join d name) = last name" and n: "path_join d name \<noteq> []"
    using v by (simp_all add: path_join_def)
  have "last name \<noteq> CHR ''/''" using v(1,2) by (metis last_in_set)
  with l have "\<not> endswith (path_join d name) ''/''"
    using endswith_last [of "path_join d name" "''/''"] by auto
  with n show ?thesis by simp
qed

text \<open>Walking a path.\<close>

lemma walk_append:
  "walk fs cur (xs @ ys) = (case walk fs cur xs of Inl e \<Rightarrow> Inl e | Inr k \<Rightarrow> walk fs k ys)"
  by (induction xs arbitrary: cur) simp_all

lemma walk_name:
  "valid_name c \<Longrightarrow>
     walk fs cur [c] = (if is_dir fs cur then Inr (cur @ [c]) else Inl (not_a_dir fs cur))"
  by (simp add: valid_name_parts)

lemma walk_mono:
  assumes "\<forall>x. is_dir fs x \<longrightarrow> is_dir fs' x"
  shows "walk fs cur cs = Inr k \<Longrightarrow> walk fs' cur cs = Inr k"
proof (induction cs arbitrary: cur)
  case Nil
  then show ?case by simp
next
  case (Cons c cs)
  from Cons.prems have d: "is_dir fs cur" by (auto split: if_splits)
  with assms have d': "is_dir fs' cur" by blast
  from Cons.prems d d' Cons.IH show ?case by (auto split: if_splits)
qed

lemma resolve_walk:
  "resolve wd fs p = Inr k \<Longrightarrow>
     p \<noteq> [] \<and> walk fs (start_of wd p) (components p) = Inr k \<and> (endswith p ''/'' \<longrightarrow> is_dir fs k)"
  by (auto simp: resolve_def split: if_splits sum.splits)

lemma resolve_mono:
  assumes "\<forall>x. is_dir fs x \<longrightarrow> is_dir fs' x" and "resolve wd fs p = Inr k"
  shows "resolve wd fs' p = Inr k"
proof -
  from resolve_walk [OF assms(2)] have ne: "p \<noteq> []"
    and w: "walk fs (start_of wd p) (components p) = Inr k"
    and t: "endswith p ''/'' \<longrightarrow> is_dir fs k"
    by simp_all
  from walk_mono [OF assms(1) w] have "walk fs' (start_of wd p) (components p) = Inr k" .
  moreover from t assms(1) have "endswith p ''/'' \<longrightarrow> is_dir fs' k" by blast
  ultimately show ?thesis using ne by (simp add: resolve_def)
qed

lemma resolve_same_dirs:
  assumes "\<forall>x. is_dir fs' x = is_dir fs x"
  shows "(resolve wd fs' p = Inr k) = (resolve wd fs p = Inr k)"
  using resolve_mono [of fs fs' wd p k] resolve_mono [of fs' fs wd p k] assms by blast

lemma resolve_join:
  assumes "valid_name name" and "resolve wd fs d = Inr kd" and "is_dir fs kd"
  shows "resolve wd fs (path_join d name) = Inr (kd @ [name])"
proof -
  from resolve_walk [OF assms(2)] have ne: "d \<noteq> []"
    and w: "walk fs (start_of wd d) (components d) = Inr kd"
    by simp_all
  have "walk fs (start_of wd (path_join d name)) (components (path_join d name))
          = Inr (kd @ [name])"
    using w assms(3)
    by (simp add: start_of_join [OF assms(1) ne] components_join [OF assms(1)] walk_append
        walk_name [OF assms(1)] del: walk.simps)
  then show ?thesis
    using join_no_trailing_slash [OF assms(1), of d] by (simp add: resolve_def)
qed

lemma resolve_join_back:
  assumes "valid_name name" and "d \<noteq> []" and "resolve wd fs (path_join d name) = Inr k"
  shows "\<exists>kd. resolve wd fs d = Inr kd \<and> is_dir fs kd \<and> k = kd @ [name]"
proof -
  from resolve_walk [OF assms(3)]
  have "walk fs (start_of wd d) (components d @ [name]) = Inr k"
    by (simp add: start_of_join [OF assms(1,2)] components_join [OF assms(1)])
  then obtain kd where w: "walk fs (start_of wd d) (components d) = Inr kd"
    and n: "walk fs kd [name] = Inr k"
    by (auto simp: walk_append split: sum.splits)
  from n have d: "is_dir fs kd" and k: "k = kd @ [name]"
    by (auto simp: walk_name [OF assms(1)] simp del: walk.simps split: if_splits)
  from w d assms(2) have "resolve wd fs d = Inr kd" by (simp add: resolve_def)
  with d k show ?thesis by blast
qed

lemma lookup_join:
  assumes "valid_name name" and "resolve wd fs d = Inr kd" and "is_dir fs kd"
  shows "lookup wd fs (path_join d name) = map_of fs (kd @ [name])"
  by (simp add: lookup_def resolve_join [OF assms] node_at_def)

text \<open>Decimal numerals and page names.\<close>

lemma of_char_digit: "d < 10 \<Longrightarrow> of_char (digit_char d) = 48 + d"
  by (simp add: digit_char_def)

lemma digit_char_not_slash: "d < 10 \<Longrightarrow> digit_char d \<noteq> CHR ''/''"
proof
  assume d: "d < 10" and "digit_char d = CHR ''/''"
  then have "(of_char (digit_char d) :: nat) = of_char CHR ''/''" by simp
  with d show False by (simp add: of_char_digit)
qed

lemma str_nat_no_slash: "CHR ''/'' \<notin> set (str_nat n)"
proof (induction n rule: str_nat.induct)
  case (1 n)
  show ?case
  proof (cases "n < 10")
    case True
    then show ?thesis
      using digit_char_not_slash [of n] by (subst str_nat.simps) auto
  next
    case False
    with 1 have "CHR ''/'' \<notin> set (str_nat (n div 10))" by simp
    moreover have "digit_char (n mod 10) \<noteq> CHR ''/''"
      by (rule digit_char_not_slash) simp
    ultimately show ?thesis
      using False by (subst str_nat.simps) auto
  qed
qed

lemma nat_of_digits_snoc:
  "nat_of_digits (s @ [c]) = 10 * nat_of_digits s + (of_char c - 48)"
  by (simp add: nat_of_digits_def)

lemma nat_of_digits_str_nat: "nat_of_digits (str_nat n) = n"
proof (induction n rule: str_nat.induct)
  case (1 n)
  show ?case
  proof (cases "n < 10")
    case True
    then show ?thesis
      by (subst str_nat.simps) (simp add: nat_of_digits_def of_char_digit)
  next
    case False
    with 1 have "nat_of_digits (str_nat (n div 10)) = n div 10" by simp
    then show ?thesis
      using False
      by (subst str_nat.simps) (simp add: nat_of_digits_snoc of_char_digit)
  qed
qed

lemma nat_of_digits_zeros: "nat_of_digits (replicate k CHR ''0'' @ s) = nat_of_digits s"
proof -
  have "foldl (\<lambda>a c. 10 * a + (of_char c - 48)) 0 (replicate k CHR ''0'') = (0::nat)"
    by (induction k) simp_all
  then show ?thesis by (simp add: nat_of_digits_def)
qed

lemma nat_of_digits_format: "nat_of_digits (format_03d n) = n"
  by (simp add: format_03d_def Let_def nat_of_digits_zeros nat_of_digits_str_nat)

lemma format_03d_inj:
  assumes "format_03d m = format_03d n"
  shows "m = n"
proof -
  have "nat_of_digits (format_03d m) = nat_of_digits (format_03d n)"
    by (simp only: assms)
  then show ?thesis by (simp only: nat_of_digits_format)
qed

lemma page_filename_inj:
  assumes "page_filename m = page_filename n"
  shows "m = n"
proof -
  from assms have "format_03d (m + 1) = format_03d (n + 1)"
    by (simp add: page_filename_def)
  then have "m + 1 = n + 1" by (rule format_03d_inj)
  then show ?thesis by simp
qed

lemma page_filename_valid: "valid_name (page_filename n)"
  by (simp add: valid_name_def page_filename_def format_03d_def Let_def str_nat_no_slash)

lemma page_filename_pdf: "endswith (page_filename n) ''.pdf''"
  unfolding page_filename_def using endswith_append [of "''page_'' @ format_03d (n + 1)" "''.pdf''"]
  by simp

lemma length_str_nat: "n < 1000 \<Longrightarrow> length (str_nat n) \<le> 3"
proof -
  assume n: "n < 1000"
  have s1: "str_nat k = [digit_char k]" if "k < 10" for k
    using that by (subst str_nat.simps) simp
  have s2: "str_nat k = str_nat (k div 10) @ [digit_char (k mod 10)]" if "\<not> k < 10" for k
    using that by (subst str_nat.simps) simp
  show ?thesis
  proof (cases "n < 10")
    case True
    then show ?thesis by (simp add: s1)
  next
    case False
    show ?thesis
    proof (cases "n div 10 < 10")
      case True
      with False show ?thesis by (simp add: s2 [of n] s1)
    next
      case f: False
      from n have "n div 10 div 10 < 10" by simp
      with False f show ?thesis by (simp add: s2 [of n] s2 [of "n div 10"] s1)
    qed
  qed
qed

lemma length_format_03d: "n < 1000 \<Longrightarrow> length (format_03d n) = 3"
  using length_str_nat [of n] by (simp add: format_03d_def Let_def)

text \<open>Nodes after an update, after \<open>makedirs\<close> and after the directory step.\<close>

lemma map_of_update:
  "map_of (AList.update k v fs) k' = (if k' = k then Some v else map_of fs k')"
  by (simp add: update_conv')

lemma is_dir_update_dir: "is_dir fs x \<Longrightarrow> is_dir (AList.update k Dir fs) x"
  by (auto simp: is_dir_def map_of_update)

lemma is_dir_update_file:
  "\<not> is_dir fs k \<Longrightarrow> is_dir (AList.update k (File b) fs) x = is_dir fs x"
  by (auto simp: is_dir_def map_of_update)

lemma mkwalk_frame:
  "mkwalk fs cur cs = (r, fs') \<Longrightarrow>
     map_of fs' k = map_of fs k \<or> (map_of fs k = None \<and> map_of fs' k = Some Dir)"
proof (induction cs arbitrary: fs cur)
  case Nil
  then show ?case by simp
next
  case (Cons c cs)
  show ?case
  proof (cases "is_dir fs cur")
    case False
    with Cons.prems show ?thesis by simp
  next
    case d: True
    consider (dot) "c = ''.''" | (dotdot) "c = ''..''" | (name) "c \<noteq> ''.''" "c \<noteq> ''..''"
      by blast
    then show ?thesis
    proof cases
      case dot
      show ?thesis
      proof (cases "cs = []")
        case True
        with dot d Cons.prems show ?thesis by simp
      next
        case False
        with dot d Cons.prems have "mkwalk fs cur cs = (r, fs')" by simp
        then show ?thesis by (rule Cons.IH)
      qed
    next
      case dotdot
      show ?thesis
      proof (cases "cs = []")
        case True
        with dotdot d Cons.prems show ?thesis by simp
      next
        case False
        with dotdot d Cons.prems have "mkwalk fs (butlast cur) cs = (r, fs')" by simp
        then show ?thesis by (rule Cons.IH)
      qed
    next
      case name
      show ?thesis
      proof (cases "map_of fs (cur @ [c])")
        case None
        show ?thesis
        proof (cases "cs = []")
          case True
          with name d None Cons.prems have "fs' = AList.update (cur @ [c]) Dir fs" by simp
          with None show ?thesis by (simp add: map_of_update)
        next
          case False
          with name d None Cons.prems
          have "mkwalk (AList.update (cur @ [c]) Dir fs) (cur @ [c]) cs = (r, fs')" by simp
          from Cons.IH [OF this] None show ?thesis
            by (auto simp: map_of_update split: if_splits)
        qed
      next
        case (Some nd)
        show ?thesis
        proof (cases nd)
          case (File b)
          with Some name d Cons.prems show ?thesis by (cases "cs = []") simp_all
        next
          case Dir
          show ?thesis
          proof (cases "cs = []")
            case True
            with Dir Some name d Cons.prems show ?thesis by simp
          next
            case False
            with Dir Some name d Cons.prems have "mkwalk fs (cur @ [c]) cs = (r, fs')" by simp
            then show ?thesis by (rule Cons.IH)
          qed
        qed
      qed
    qed
  qed
qed

lemma frame_dirs:
  assumes "map_of fs' x = map_of fs x \<or> (map_of fs x = None \<and> map_of fs' x = Some Dir)"
    and "is_dir fs x"
  shows "is_dir fs' x"
  using assms by (auto simp: is_dir_def)

lemma mkwalk_dirs: "mkwalk fs cur cs = (r, fs') \<Longrightarrow> is_dir fs x \<Longrightarrow> is_dir fs' x"
  using mkwalk_frame [of fs cur cs r fs' x] by (rule frame_dirs)

lemma mkwalk_ok:
  "mkwalk fs cur cs = (None, fs') \<Longrightarrow> \<exists>k. walk fs' cur cs = Inr k \<and> is_dir fs' k"
proof (induction cs arbitrary: fs cur)
  case Nil
  then show ?case by simp
next
  case (Cons c cs)
  from Cons.prems have d: "is_dir fs cur" by (auto split: if_splits)
  from mkwalk_dirs [OF Cons.prems d] have d': "is_dir fs' cur" .
  consider (dot) "c = ''.''" | (dotdot) "c = ''..''" | (name) "c \<noteq> ''.''" "c \<noteq> ''..''"
    by blast
  then show ?case
  proof cases
    case dot
    show ?thesis
    proof (cases "cs = []")
      case True
      with dot d' show ?thesis by simp
    next
      case False
      with dot d Cons.prems have "mkwalk fs cur cs = (None, fs')" by simp
      from Cons.IH [OF this] dot d' show ?thesis by simp
    qed
  next
    case dotdot
    show ?thesis
    proof (cases "cs = []")
      case True
      with dotdot d Cons.prems show ?thesis by simp
    next
      case False
      with dotdot d Cons.prems have "mkwalk fs (butlast cur) cs = (None, fs')" by simp
      from Cons.IH [OF this] dotdot d' show ?thesis by simp
    qed
  next
    case name
    show ?thesis
    proof (cases "map_of fs (cur @ [c])")
      case None
      show ?thesis
      proof (cases "cs = []")
        case True
        with name d None Cons.prems have "fs' = AList.update (cur @ [c]) Dir fs" by simp
        then have "is_dir fs' (cur @ [c])" by (simp add: is_dir_def map_of_update)
        with True name d' show ?thesis by simp
      next
        case False
        with name d None Cons.prems
        have "mkwalk (AList.update (cur @ [c]) Dir fs) (cur @ [c]) cs = (None, fs')" by simp
        from Cons.IH [OF this] name d' show ?thesis by simp
      qed
    next
      case (Some nd)
      show ?thesis
      proof (cases nd)
        case (File b)
        with Some name d Cons.prems show ?thesis by (cases "cs = []") simp_all
      next
        case Dir
        show ?thesis
        proof (cases "cs = []")
          case True
          with Dir Some name d Cons.prems show ?thesis by simp
        next
          case False
          with Dir Some name d Cons.prems have "mkwalk fs (cur @ [c]) cs = (None, fs')" by simp
          from Cons.IH [OF this] name d' show ?thesis by simp
        qed
      qed
    qed
  qed
qed

lemma ensure_dir_frame:
  assumes "ensure_dir wd d fs = (r, fs1)"
  shows "map_of fs1 k = map_of fs k \<or> (map_of fs k = None \<and> map_of fs1 k = Some Dir)"
proof (cases "lookup wd fs d = None \<and> d \<noteq> []")
  case True
  with assms have "mkwalk fs (start_of wd d) (components d) = (r, fs1)"
    by (simp add: ensure_dir_def makedirs_def)
  then show ?thesis by (rule mkwalk_frame)
next
  case False
  with assms have "fs1 = fs"
    by (auto simp: ensure_dir_def makedirs_def split: if_splits)
  then show ?thesis by simp
qed

lemma ensure_dir_dirs: "ensure_dir wd d fs = (r, fs1) \<Longrightarrow> is_dir fs x \<Longrightarrow> is_dir fs1 x"
  using ensure_dir_frame [of wd d fs r fs1 x] by (rule frame_dirs)

lemma lookup_dir: "lookup wd fs d = Some Dir \<longleftrightarrow> (\<exists>k. resolve wd fs d = Inr k \<and> is_dir fs k)"
  by (auto simp: lookup_def node_at_def is_dir_def split: sum.splits if_splits)

lemma ensure_dir_dir:
  assumes "ensure_dir wd d fs = (None, fs1)" and "\<forall>b. lookup wd fs d \<noteq> Some (File b)"
  shows "\<exists>kd. resolve wd fs1 d = Inr kd \<and> is_dir fs1 kd"
proof (cases "lookup wd fs d")
  case None
  with assms(1) have ne: "d \<noteq> []"
    and m: "mkwalk fs (start_of wd d) (components d) = (None, fs1)"
    by (auto simp: ensure_dir_def makedirs_def split: if_splits)
  from mkwalk_ok [OF m] obtain k where "walk fs1 (start_of wd d) (components d) = Inr k"
    and "is_dir fs1 k"
    by blast
  with ne show ?thesis by (simp add: resolve_def)
next
  case (Some nd)
  with assms(2) have "lookup wd fs d = Some Dir" by (cases nd) simp_all
  moreover from Some assms(1) have "fs1 = fs" by (simp add: ensure_dir_def)
  ultimately show ?thesis by (simp add: lookup_dir)
qed

lemma name_no_trailing_slash: "valid_name d \<Longrightarrow> \<not> endswith d ''/''"
proof
  assume v: "valid_name d" and "endswith d ''/''"
  then have "d \<noteq> [] \<and> last d = CHR ''/''"
    using endswith_last [of d "''/''"] by simp
  then have "CHR ''/'' \<in> set d" by (metis last_in_set)
  with valid_name_parts(2) [OF v] show False by simp
qed

lemma resolve_name:
  "valid_name d \<Longrightarrow> is_dir fs wd \<Longrightarrow> resolve wd fs d = Inr (wd @ [d])"
  by (simp add: resolve_def valid_name_parts components_name start_of_def
      name_no_trailing_slash)

text \<open>The usual case: a plain name, with nothing of that name in the working directory.\<close>

lemma ensure_dir_fresh:
  assumes "valid_name d" and "is_dir fs wd" and "map_of fs (wd @ [d]) = None"
  shows "ensure_dir wd d fs = (None, AList.update (wd @ [d]) Dir fs)"
  using assms
  by (simp add: ensure_dir_def makedirs_def lookup_def resolve_name node_at_def
      components_name start_of_def valid_name_parts)

text \<open>Opening, reading, writing and measuring a file.\<close>

lemma open_file_Inr:
  "open_file wd fs p = Inr k \<longleftrightarrow>
     resolve wd fs p = Inr k \<and> k \<noteq> [] \<and> (\<exists>b. map_of fs k = Some (File b))"
  by (auto simp: open_file_def node_at_def split: sum.splits option.splits node.splits
      if_splits)

lemma read_file_key:
  "read_file wd fs p = Inr b \<longleftrightarrow>
     (\<exists>k. resolve wd fs p = Inr k \<and> k \<noteq> [] \<and> map_of fs k = Some (File b))"
  by (auto simp: read_file_def open_file_def node_at_def
      split: sum.splits option.splits node.splits if_splits)

lemma read_file_Inr: "read_file wd fs p = Inr b \<longleftrightarrow> lookup wd fs p = Some (File b)"
  by (auto simp: read_file_key lookup_def node_at_def split: sum.splits if_splits)

lemma ensure_dir_keeps_source:
  assumes "ensure_dir wd d fs = (r, fs1)"
    and "resolve wd fs p = Inr k" and "map_of fs k = Some (File b)"
  shows "resolve wd fs1 p = Inr k \<and> map_of fs1 k = Some (File b)"
proof -
  have "\<forall>x. is_dir fs x \<longrightarrow> is_dir fs1 x"
    using ensure_dir_dirs [OF assms(1)] by blast
  then have "resolve wd fs1 p = Inr k"
    using assms(2) by (rule resolve_mono)
  moreover from ensure_dir_frame [OF assms(1), of k] assms(3)
  have "map_of fs1 k = Some (File b)" by auto
  ultimately show ?thesis by simp
qed

lemma write_file_result:
  "write_file wd p b fs = Inr fs' \<Longrightarrow>
     \<exists>k. resolve wd fs p = Inr k \<and> \<not> is_dir fs k \<and> fs' = AList.update k (File b) fs"
  by (auto simp: write_file_def split: sum.splits if_splits)

lemma write_file_join:
  assumes "valid_name name" and "resolve wd fs d = Inr kd" and "is_dir fs kd"
    and "map_of fs (kd @ [name]) \<noteq> Some Dir"
  shows "write_file wd (path_join d name) b fs
           = Inr (AList.update (kd @ [name]) (File b) fs)"
  using assms(4) by (simp add: write_file_def resolve_join [OF assms(1-3)] is_dir_def)

lemma getsize_join:
  assumes "valid_name name" and "resolve wd fs d = Inr kd" and "is_dir fs kd"
    and "map_of fs (kd @ [name]) = Some nd"
  shows "\<exists>sz. getsize wd fs (path_join d name) = Inr sz
           \<and> (\<forall>b. nd = File b \<longrightarrow> sz = Some (length b))"
  using assms(4)
  by (cases nd) (simp_all add: getsize_def resolve_join [OF assms(1-3)] node_at_def)

lemma resolve_update_file:
  assumes "\<not> is_dir fs k"
  shows "(resolve wd (AList.update k (File b) fs) p = Inr k') = (resolve wd fs p = Inr k')"
  using assms by (intro resolve_same_dirs) (simp add: is_dir_update_file)

section \<open>Properties of the page splitter\<close>

lemma files_emit [simp]: "files (emit e w) = files w"
  by (simp add: emit_def)

lemma console_emit [simp]: "console (emit e w) = console w @ [e]"
  by (simp add: emit_def)

lemma cwd_emit [simp]: "cwd (emit e w) = cwd w"
  by (simp add: emit_def)

lemma clock_emit [simp]: "clock (emit e w) = clock w"
  by (simp add: emit_def)

lemma page_key_inj:
  "D @ [page_filename i] = D @ [page_filename j] \<Longrightarrow> i = j"
  by (simp add: page_filename_inj)

lemma reader_pages_Inr:
  "map_of fs ks = Some (File bytes) \<Longrightarrow> read_pages lib bytes = Some pages \<Longrightarrow>
     reader_pages lib fs ks = Inr pages"
  by (simp add: reader_pages_def)

text \<open>One step of the page loop, when the directory is there, no directory lies at the
  page path and the open source file holds a document with that page.\<close>

lemma page_loop_step:
  assumes "resolve (cwd w) (files w) d = Inr kd" and "is_dir (files w) kd"
    and "map_of (files w) ks = Some (File bytes)" and "read_pages lib bytes = Some pages"
    and "n < length pages"
    and "map_of (files w) (kd @ [page_filename n]) \<noteq> Some Dir"
  shows "page_loop lib ks d (n # rest) w =
           page_loop lib ks d rest
             (emit (Created (page_filename n)
                      (Some (length (write_pages lib (clock w) [pages ! n]))))
                (w\<lparr>files := AList.update (kd @ [page_filename n])
                               (File (write_pages lib (clock w) [pages ! n])) (files w),
                    clock := clock w + 1\<rparr>))"
proof -
  let ?k = "kd @ [page_filename n]"
  let ?b = "write_pages lib (clock w) [pages ! n]"
  let ?fs = "AList.update ?k (File ?b) (files w)"
  have rp: "reader_pages lib (files w) ks = Inr pages"
    using assms(3,4) by (rule reader_pages_Inr)
  have wr: "write_file (cwd w) (path_join d (page_filename n)) ?b (files w) = Inr ?fs"
    using page_filename_valid assms(1,2,6) by (rule write_file_join)
  have nd: "\<not> is_dir (files w) ?k"
    using assms(6) by (simp add: is_dir_def)
  have r': "resolve (cwd w) ?fs d = Inr kd"
    using assms(1) by (simp add: resolve_update_file [OF nd])
  have d': "is_dir ?fs kd"
    using assms(2) by (simp add: is_dir_update_file [OF nd])
  have "map_of ?fs ?k = Some (File ?b)" by (simp add: map_of_update)
  from getsize_join [OF page_filename_valid r' d' this]
  have "getsize (cwd w) ?fs (path_join d (page_filename n)) = Inr (Some (length ?b))" by auto
  with rp wr assms(5) show ?thesis by (simp add: Let_def)
qed

lemma page_loop_ok:
  assumes "resolve (cwd w) (files w) d = Inr kd" and "is_dir (files w) kd"
    and "map_of (files w) ks = Some (File bytes)" and "read_pages lib bytes = Some pages"
    and "\<forall>i \<in> set nums. i < length pages \<and> ks \<noteq> kd @ [page_filename i]
            \<and> map_of (files w) (kd @ [page_filename i]) \<noteq> Some Dir"
  shows "\<exists>w'. page_loop lib ks d nums w = Returned () w'
           \<and> cwd w' = cwd w \<and> clock w' = clock w + length nums
           \<and> (\<forall>x. is_dir (files w') x = is_dir (files w) x)
           \<and> (\<forall>k. (\<forall>i \<in> set nums. k \<noteq> kd @ [page_filename i])
                 \<longrightarrow> map_of (files w') k = map_of (files w) k)
           \<and> (distinct nums \<longrightarrow>
                (\<forall>j < length nums. map_of (files w') (kd @ [page_filename (nums ! j)])
                     = Some (File (write_pages lib (clock w + j) [pages ! (nums ! j)]))))"
  using assms(1,2,3,5)
proof (induction nums arbitrary: w)
  case Nil
  show ?case by simp
next
  case (Cons n rest)
  let ?key = "\<lambda>i. kd @ [page_filename i]"
  let ?b = "write_pages lib (clock w) [pages ! n]"
  define w1 where "w1 = emit (Created (page_filename n) (Some (length ?b)))
       (w\<lparr>files := AList.update (?key n) (File ?b) (files w), clock := clock w + 1\<rparr>)"
  from Cons.prems(4) have n: "n < length pages" and sn: "ks \<noteq> ?key n"
    and fn: "map_of (files w) (?key n) \<noteq> Some Dir"
    by simp_all
  have step: "page_loop lib ks d (n # rest) w = page_loop lib ks d rest w1"
    unfolding w1_def using Cons.prems(1,2,3) assms(4) n fn by (rule page_loop_step)
  have nd: "\<not> is_dir (files w) (?key n)"
    using fn by (simp add: is_dir_def)
  have f1: "map_of (files w1) k = (if k = ?key n then Some (File ?b) else map_of (files w) k)"
    for k
    by (simp add: w1_def map_of_update)
  have c1: "cwd w1 = cwd w" and t1: "clock w1 = clock w + 1"
    by (simp_all add: w1_def)
  have d1: "is_dir (files w1) x = is_dir (files w) x" for x
    by (simp add: w1_def is_dir_update_file [OF nd])
  have r1: "resolve (cwd w1) (files w1) d = Inr kd"
    using Cons.prems(1) by (simp add: w1_def resolve_update_file [OF nd])
  have k1: "is_dir (files w1) kd"
    using Cons.prems(2) by (simp add: d1)
  have s1: "map_of (files w1) ks = Some (File bytes)"
    using Cons.prems(3) sn by (simp add: f1)
  have p1: "\<forall>i \<in> set rest. i < length pages \<and> ks \<noteq> ?key i
              \<and> map_of (files w1) (?key i) \<noteq> Some Dir"
    using Cons.prems(4) by (simp add: f1)
  from Cons.IH [OF r1 k1 s1 p1] obtain w' where
    r: "page_loop lib ks d rest w1 = Returned () w'"
    and c: "cwd w' = cwd w1" and t: "clock w' = clock w1 + length rest"
    and di: "\<forall>x. is_dir (files w') x = is_dir (files w1) x"
    and o: "\<forall>k. (\<forall>i \<in> set rest. k \<noteq> ?key i) \<longrightarrow> map_of (files w') k = map_of (files w1) k"
    and p: "distinct rest \<longrightarrow>
              (\<forall>j < length rest. map_of (files w') (?key (rest ! j))
                   = Some (File (write_pages lib (clock w1 + j) [pages ! (rest ! j)])))"
    by blast
  have "page_loop lib ks d (n # rest) w = Returned () w'"
    by (simp only: step r)
  moreover have "cwd w' = cwd w" by (simp add: c c1)
  moreover have "clock w' = clock w + length (n # rest)" by (simp add: t t1)
  moreover have "\<forall>x. is_dir (files w') x = is_dir (files w) x" by (simp add: di d1)
  moreover have "map_of (files w') k = map_of (files w) k"
    if "\<forall>i \<in> set (n # rest). k \<noteq> ?key i" for k
    using that o f1 by simp
  moreover have "map_of (files w') (?key ((n # rest) ! j))
        = Some (File (write_pages lib (clock w + j) [pages ! ((n # rest) ! j)]))"
    if dist: "distinct (n # rest)" and j: "j < length (n # rest)" for j
  proof (cases j)
    case 0
    from dist have "\<forall>i \<in> set rest. ?key n \<noteq> ?key i"
      using page_key_inj by fastforce
    with o have "map_of (files w') (?key n) = map_of (files w1) (?key n)" by blast
    with 0 show ?thesis by (simp add: f1)
  next
    case (Suc j')
    with j have "j' < length rest" by simp
    with p dist have "map_of (files w') (?key (rest ! j'))
        = Some (File (write_pages lib (clock w1 + j') [pages ! (rest ! j')]))"
      by simp
    with Suc show ?thesis by (simp add: t1)
  qed
  ultimately show ?case by blast
qed

text \<open>Whatever the outcome, the page loop changes page files only, and no directory.\<close>

lemma page_loop_frame:
  "cwd (world_of (page_loop lib ks d nums w)) = cwd w
   \<and> (\<forall>x. is_dir (files (world_of (page_loop lib ks d nums w))) x = is_dir (files w) x)
   \<and> (map_of (files (world_of (page_loop lib ks d nums w))) k = map_of (files w) k
      \<or> ((\<exists>i \<in> set nums. resolve (cwd w) (files w) (path_join d (page_filename i)) = Inr k)
         \<and> (\<exists>b. map_of (files (world_of (page_loop lib ks d nums w))) k = Some (File b))))"
proof (induction nums arbitrary: w)
  case Nil
  show ?case by simp
next
  case (Cons n rest)
  let ?path = "path_join d (page_filename n)"
  show ?case
  proof (cases "reader_pages lib (files w) ks")
    case (Inl e)
    then show ?thesis by simp
  next
    case rp: (Inr pages)
    let ?b = "write_pages lib (clock w) [pages ! n]"
    show ?thesis
    proof (cases "n < length pages")
      case False
      with rp show ?thesis by simp
    next
      case n: True
      show ?thesis
      proof (cases "write_file (cwd w) ?path ?b (files w)")
        case (Inl e)
        with rp n show ?thesis by (simp add: Let_def)
      next
        case (Inr fs)
        from write_file_result [OF this] obtain k0 where
          k0: "resolve (cwd w) (files w) ?path = Inr k0" and nd: "\<not> is_dir (files w) k0"
          and fs: "fs = AList.update k0 (File ?b) (files w)"
          by blast
        have m: "map_of fs k = (if k = k0 then Some (File ?b) else map_of (files w) k)"
          by (simp add: fs map_of_update)
        have di: "is_dir fs x = is_dir (files w) x" for x
          by (simp add: fs is_dir_update_file [OF nd])
        have re: "(resolve (cwd w) fs p = Inr k') = (resolve (cwd w) (files w) p = Inr k')"
          for p k'
          by (simp add: fs resolve_update_file [OF nd])
        show ?thesis
        proof (cases "getsize (cwd w) fs ?path")
          case (Inl e)
          with rp n Inr m di k0 show ?thesis by (auto simp: Let_def)
        next
          case sz: (Inr page_size)
          define w1 where "w1 = emit (Created (page_filename n) page_size)
                                  (w\<lparr>files := fs, clock := clock w + 1\<rparr>)"
          have step: "page_loop lib ks d (n # rest) w = page_loop lib ks d rest w1"
            using rp n Inr sz by (simp add: Let_def w1_def)
          have f1: "files w1 = fs" and c1: "cwd w1 = cwd w" by (simp_all add: w1_def)
          from Cons.IH [of w1] m k0 show ?thesis
            unfolding step f1 c1 di re by (auto split: if_splits)
        qed
      qed
    qed
  qed
qed

text \<open>The closing listing reads only, and succeeds on the names the directory holds.\<close>

lemma listing_loop_world:
  "files (world_of (listing_loop d names w)) = files w
   \<and> cwd (world_of (listing_loop d names w)) = cwd w
   \<and> clock (world_of (listing_loop d names w)) = clock w"
proof (induction names arbitrary: w)
  case Nil
  show ?case by simp
next
  case (Cons f names)
  show ?case
  proof (cases "endswith f ''.pdf''")
    case True
    then show ?thesis
      by (cases "getsize (cwd w) (files w) (path_join d f)") (simp_all add: Cons.IH)
  next
    case False
    then show ?thesis by (simp add: Cons.IH)
  qed
qed

lemma listing_loop_ok:
  assumes "resolve (cwd w) (files w) d = Inr kd" and "is_dir (files w) kd"
    and "\<forall>f \<in> set names. valid_name f \<and> map_of (files w) (kd @ [f]) \<noteq> None"
  shows "\<exists>w'. listing_loop d names w = Returned () w'"
  using assms
proof (induction names arbitrary: w)
  case Nil
  show ?case by simp
next
  case (Cons f names)
  from Cons.prems(3) have v: "valid_name f" and "map_of (files w) (kd @ [f]) \<noteq> None"
    by simp_all
  then obtain nd where "map_of (files w) (kd @ [f]) = Some nd" by auto
  from getsize_join [OF v Cons.prems(1,2) this] obtain sz where
    sz: "getsize (cwd w) (files w) (path_join d f) = Inr sz" by blast
  have "\<exists>w'. listing_loop d names (emit (Listed f sz) w) = Returned () w'"
    using Cons.prems by (intro Cons.IH) simp_all
  moreover have "\<exists>w'. listing_loop d names w = Returned () w'"
    using Cons.prems by (intro Cons.IH) simp_all
  ultimately show ?case by (simp add: sz)
qed

lemma listdir_names:
  assumes "listdir wd fs d = Inr names" and "resolve wd fs d = Inr kd" and "f \<in> set names"
  shows "valid_name f \<and> map_of fs (kd @ [f]) \<noteq> None"
proof -
  from assms(1,2) have
    "names = remdups (map (\<lambda>k. last k)
       (filter (\<lambda>k. k \<noteq> [] \<and> butlast k = kd \<and> valid_name (last k)) (map fst fs)))"
    by (auto simp: listdir_def split: option.splits node.splits)
  with assms(3) obtain k where k: "k \<in> fst ` set fs" "k \<noteq> []" "butlast k = kd"
    "valid_name (last k)" "f = last k"
    by auto
  from k(2,3,5) have "k = kd @ [f]"
    using append_butlast_last_id by metis
  moreover from k(1) have "map_of fs k \<noteq> None"
    by (simp add: map_of_eq_None_iff)
  ultimately show ?thesis using k(4,5) by simp
qed

lemma listdir_ok:
  "resolve wd fs d = Inr kd \<Longrightarrow> is_dir fs kd \<Longrightarrow> \<exists>names. listdir wd fs d = Inr names"
  by (auto simp: listdir_def node_at_def is_dir_def)

text \<open>A complete run of the splitter on a readable document.\<close>

lemma all_below: "\<forall>i \<in> set [0..<n]. P i \<Longrightarrow> \<forall>i < n. P i"
  by simp

lemma py_range_int: "py_range (int n) = [0..<n]"
  by (simp add: py_range_def)

lemma split_pdf_run:
  assumes e: "ensure_dir (cwd w) d (files w) = (None, fs1)"
    and dir: "resolve (cwd w) fs1 d = Inr kd" "is_dir fs1 kd"
    and src: "resolve (cwd w) fs1 input_path = Inr ks" "ks \<noteq> []"
      "map_of fs1 ks = Some (File bytes)"
    and pdf: "read_pages lib bytes = Some pages"
    and free: "\<forall>i < length pages. ks \<noteq> kd @ [page_filename i]
                 \<and> map_of fs1 (kd @ [page_filename i]) \<noteq> Some Dir"
  shows "\<exists>w'. split_pdf lib input_path d w = Returned () w'
           \<and> cwd w' = cwd w \<and> clock w' = clock w + length pages
           \<and> (\<forall>x. is_dir (files w') x = is_dir fs1 x)
           \<and> (\<forall>i < length pages.
                 map_of (files w') (kd @ [page_filename i])
                   = Some (File (write_pages lib (clock w + i) [pages ! i])))
           \<and> (\<forall>k. (\<forall>i < length pages. k \<noteq> kd @ [page_filename i]) \<longrightarrow>
                 map_of (files w') k = map_of fs1 k)"
proof -
  let ?key = "\<lambda>i. kd @ [page_filename i]"
  have op: "open_file (cwd w) fs1 input_path = Inr ks"
    using src by (simp add: open_file_Inr)
  have rp: "reader_pages lib fs1 ks = Inr pages"
    using src(3) pdf by (rule reader_pages_Inr)
  define w2 where "w2 = emit (Splitting input_path (length pages)) (w\<lparr>files := fs1\<rparr>)"
  have f2: "files w2 = fs1" and c2: "cwd w2 = cwd w" and t2: "clock w2 = clock w"
    by (simp_all add: w2_def)
  have a1: "resolve (cwd w2) (files w2) d = Inr kd" using dir(1) by (simp add: f2 c2)
  have a2: "is_dir (files w2) kd" using dir(2) by (simp add: f2)
  have a3: "map_of (files w2) ks = Some (File bytes)" using src(3) by (simp add: f2)
  have a4: "\<forall>i \<in> set [0..<length pages]. i < length pages \<and> ks \<noteq> ?key i
              \<and> map_of (files w2) (?key i) \<noteq> Some Dir"
    using free by (simp add: f2)
  have dist: "distinct [0..<length pages]" by simp
  from page_loop_ok [OF a1 a2 a3 pdf a4] dist obtain w3 where
    pl: "page_loop lib ks d [0..<length pages] w2 = Returned () w3"
    and c3: "cwd w3 = cwd w2" and t3: "clock w3 = clock w2 + length [0..<length pages]"
    and d3: "\<forall>x. is_dir (files w3) x = is_dir (files w2) x"
    and other: "\<forall>k. (\<forall>i \<in> set [0..<length pages]. k \<noteq> ?key i)
                  \<longrightarrow> map_of (files w3) k = map_of (files w2) k"
    and page: "\<forall>j < length [0..<length pages].
                 map_of (files w3) (?key ([0..<length pages] ! j))
                   = Some (File (write_pages lib (clock w2 + j)
                                   [pages ! ([0..<length pages] ! j)]))"
    by blast
  define w4 where "w4 = emit Directory_contents (emit (Split_complete (length pages) d) w3)"
  have f4: "files w4 = files w3" and c4: "cwd w4 = cwd w" by (simp_all add: w4_def c3 c2)
  have "\<forall>x. is_dir (files w3) x \<longrightarrow> is_dir fs1 x" "\<forall>x. is_dir fs1 x \<longrightarrow> is_dir (files w3) x"
    using d3 by (simp_all add: f2)
  then have r3: "resolve (cwd w) (files w3) d = Inr kd"
    using dir(1) resolve_mono by blast
  have k3: "is_dir (files w3) kd" using dir(2) d3 by (simp add: f2)
  from listdir_ok [OF r3 k3] obtain names where
    ls3: "listdir (cwd w) (files w3) d = Inr names"
    by blast
  have nm: "\<forall>f \<in> set (sort names). valid_name f \<and> map_of (files w4) (kd @ [f]) \<noteq> None"
    using listdir_names [OF ls3 r3] by (simp add: f4)
  have r4: "resolve (cwd w4) (files w4) d = Inr kd" using r3 by (simp add: f4 c4)
  have k4: "is_dir (files w4) kd" using k3 by (simp add: f4)
  from listing_loop_ok [OF r4 k4 nm] obtain w' where
    ll: "listing_loop d (sort names) w4 = Returned () w'"
    by blast
  from listing_loop_world [of d "sort names" w4] ll
  have f': "files w' = files w3" and c': "cwd w' = cwd w" and t': "clock w' = clock w3"
    by (simp_all add: w4_def c3 c2)
  have ls3': "listdir (cwd w3) (files w3) d = Inr names"
    using ls3 by (simp add: c3 c2)
  note ll3 = ll [unfolded w4_def]
  have run: "split_pdf lib input_path d w = Returned () w'"
    using e op rp pl ls3' ll3
    by (simp add: split_pdf_def Let_def py_range_int w2_def [symmetric])
  moreover have "clock w' = clock w + length pages"
    by (simp add: t' t3 t2)
  moreover have "\<forall>x. is_dir (files w') x = is_dir fs1 x"
    using d3 by (simp add: f' f2)
  moreover have "map_of (files w') (?key i) = Some (File (write_pages lib (clock w + i) [pages ! i]))"
    if "i < length pages" for i
  proof -
    from that have "i < length [0..<length pages]" by simp
    with page have "map_of (files w3) (?key ([0..<length pages] ! i))
                   = Some (File (write_pages lib (clock w2 + i)
                                   [pages ! ([0..<length pages] ! i)]))"
      by blast
    with that show ?thesis by (simp add: f' t2)
  qed
  moreover have "map_of (files w') k = map_of fs1 k"
    if "\<forall>i < length pages. k \<noteq> ?key i" for k
  proof -
    from that have "\<forall>i \<in> set [0..<length pages]. k \<noteq> ?key i" by simp
    with other show ?thesis unfolding f' f2 by blast
  qed
  ultimately show ?thesis using c' by blast
qed

text \<open>Whatever the outcome of a run, the nodes differ from those the directory step left
  by page files of the output directory only.\<close>

lemma split_pdf_frame:
  assumes e: "ensure_dir (cwd w) d (files w) = (r, fs1)"
  shows "cwd (world_of (split_pdf lib input_path d w)) = cwd w
   \<and> (\<forall>x. is_dir (files (world_of (split_pdf lib input_path d w))) x = is_dir fs1 x)
   \<and> (map_of (files (world_of (split_pdf lib input_path d w))) k = map_of fs1 k
      \<or> ((\<exists>i. resolve (cwd w) fs1 (path_join d (page_filename i)) = Inr k)
         \<and> (\<exists>b. map_of (files (world_of (split_pdf lib input_path d w))) k = Some (File b))))"
proof (cases r)
  case (Some err)
  with e show ?thesis by (simp add: split_pdf_def)
next
  case None
  note e' = e [unfolded None]
  show ?thesis
  proof (cases "open_file (cwd w) fs1 input_path")
    case (Inl err)
    with e' show ?thesis by (simp add: split_pdf_def)
  next
    case op: (Inr ks)
    show ?thesis
    proof (cases "reader_pages lib fs1 ks")
      case (Inl err)
      with e' op show ?thesis by (simp add: split_pdf_def)
    next
      case rp: (Inr pages)
      define w2 where "w2 = emit (Splitting input_path (length pages)) (w\<lparr>files := fs1\<rparr>)"
      define res where "res = page_loop lib ks d [0..<length pages] w2"
      have f2: "files w2 = fs1" and c2: "cwd w2 = cwd w" by (simp_all add: w2_def)
      have pf: "cwd (world_of res) = cwd w
        \<and> (\<forall>x. is_dir (files (world_of res)) x = is_dir fs1 x)
        \<and> (map_of (files (world_of res)) k = map_of fs1 k
           \<or> ((\<exists>i. resolve (cwd w) fs1 (path_join d (page_filename i)) = Inr k)
              \<and> (\<exists>b. map_of (files (world_of res)) k = Some (File b))))"
        using page_loop_frame [of lib ks d "[0..<length pages]" w2 k]
        unfolding res_def f2 c2 by blast
      have "files (world_of (split_pdf lib input_path d w)) = files (world_of res)
          \<and> cwd (world_of (split_pdf lib input_path d w)) = cwd (world_of res)"
      proof (cases res)
        case (Raised err w3)
        then show ?thesis
          using e' op rp
          by (simp add: split_pdf_def Let_def py_range_int res_def [symmetric]
              w2_def [symmetric])
      next
        case (Returned u w3)
        define w4 where
          "w4 = emit Directory_contents (emit (Split_complete (length pages) d) w3)"
        have f4: "files w4 = files w3" and c4: "cwd w4 = cwd w3" by (simp_all add: w4_def)
        show ?thesis
        proof (cases "listdir (cwd w3) (files w3) d")
          case (Inl err)
          then show ?thesis
            using e' op rp Returned
            by (simp add: split_pdf_def Let_def py_range_int res_def [symmetric]
                w2_def [symmetric])
        next
          case ls: (Inr names)
          have "files (world_of (listing_loop d (sort names) w4)) = files w3
              \<and> cwd (world_of (listing_loop d (sort names) w4)) = cwd w3"
            by (simp only: listing_loop_world f4 c4)
          then show ?thesis
            using e' op rp Returned ls
            by (simp add: split_pdf_def Let_def py_range_int res_def [symmetric]
                w2_def [symmetric] w4_def)
        qed
      qed
      with pf show ?thesis by simp
    qed
  qed
qed

text \<open>
  Claim C3, with the proviso the code needs. Let the directory step succeed on an output
  path that is not a regular file, let the source be a readable document of
  \<open>N \<le> 999\<close> pages, let no directory lie at the path of a page file, and let the source
  not be one of the page files \<open>page_{i+1:03d}.pdf\<close>, \<open>i < N\<close>, of the output directory
  (the same file, by whatever path it is named). Then the splitter returns; the output
  directory exists afterwards, created if it was absent; for each page index \<open>i < N\<close> the
  file \<open>page_{i+1:03d}.pdf\<close> in it, with a number of exactly three digits, holds the
  single-page document the writer makes of page \<open>i\<close>; the \<open>N\<close> names are pairwise
  different; and no other node changes but directories created on the way. With
  \<open>N = 0\<close> this leaves the directory and no page file.
\<close>

theorem split_pdf_writes_each_page:
  assumes "ensure_dir (cwd w) output_dir (files w) = (None, fs1)"
    and "\<forall>b. lookup (cwd w) (files w) output_dir \<noteq> Some (File b)"
    and "read_file (cwd w) (files w) input_path = Inr bytes"
    and "read_pages lib bytes = Some pages"
    and "length pages \<le> 999"
    and "\<forall>i < length pages.
           lookup (cwd w) fs1 (path_join output_dir (page_filename i)) \<noteq> Some Dir"
    and "\<forall>i < length pages.
           resolve (cwd w) fs1 input_path
             \<noteq> resolve (cwd w) fs1 (path_join output_dir (page_filename i))"
  shows "\<exists>w'. split_pdf lib input_path output_dir w = Returned () w'
           \<and> lookup (cwd w) (files w') output_dir = Some Dir
           \<and> (\<forall>i < length pages.
                 lookup (cwd w) (files w') (path_join output_dir (page_filename i))
                   = Some (File (write_pages lib (clock w + i) [pages ! i]))
                 \<and> page_filename i = ''page_'' @ format_03d (i + 1) @ ''.pdf''
                 \<and> length (format_03d (i + 1)) = 3)
           \<and> distinct (map page_filename [0..<length pages])
           \<and> (\<forall>k. (\<forall>i < length pages.
                       resolve (cwd w) fs1 (path_join output_dir (page_filename i)) \<noteq> Inr k)
                 \<longrightarrow> map_of (files w') k = map_of (files w) k
                      \<or> (map_of (files w) k = None \<and> map_of (files w') k = Some Dir))"
proof -
  let ?key = "\<lambda>kd i. kd @ [page_filename i]"
  from ensure_dir_dir [OF assms(1,2)] obtain kd where
    rd: "resolve (cwd w) fs1 output_dir = Inr kd" and dd: "is_dir fs1 kd"
    by blast
  have pk: "resolve (cwd w) fs1 (path_join output_dir (page_filename i)) = Inr (?key kd i)"
    for i
    using page_filename_valid rd dd by (rule resolve_join)
  from assms(3) obtain ks where "resolve (cwd w) (files w) input_path = Inr ks"
    and ne: "ks \<noteq> []" and "map_of (files w) ks = Some (File bytes)"
    by (auto simp: read_file_key)
  with ensure_dir_keeps_source [OF assms(1)]
  have rs: "resolve (cwd w) fs1 input_path = Inr ks" and ms: "map_of fs1 ks = Some (File bytes)"
    by blast+
  have free: "\<forall>i < length pages. ks \<noteq> ?key kd i \<and> map_of fs1 (?key kd i) \<noteq> Some Dir"
  proof (intro allI impI)
    fix i assume i: "i < length pages"
    with assms(7) have "ks \<noteq> ?key kd i" by (simp add: rs pk)
    moreover from i assms(6) have "map_of fs1 (?key kd i) \<noteq> Some Dir"
      by (simp add: lookup_join [OF page_filename_valid rd dd])
    ultimately show "ks \<noteq> ?key kd i \<and> map_of fs1 (?key kd i) \<noteq> Some Dir" by simp
  qed
  from split_pdf_run [OF assms(1) rd dd rs ne ms assms(4) free] obtain w' where
    run: "split_pdf lib input_path output_dir w = Returned () w'"
    and di: "\<forall>x. is_dir (files w') x = is_dir fs1 x"
    and page: "\<forall>i < length pages.
                 map_of (files w') (?key kd i)
                   = Some (File (write_pages lib (clock w + i) [pages ! i]))"
    and other: "\<forall>k. (\<forall>i < length pages. k \<noteq> ?key kd i) \<longrightarrow>
                 map_of (files w') k = map_of fs1 k"
    by blast
  have rd': "resolve (cwd w) (files w') output_dir = Inr kd"
    using rd resolve_same_dirs [OF di, of "cwd w" output_dir kd] by simp
  from di dd have dd': "is_dir (files w') kd" by simp
  from rd' dd' have d: "lookup (cwd w) (files w') output_dir = Some Dir"
    by (auto simp: lookup_dir)
  have "lookup (cwd w) (files w') (path_join output_dir (page_filename i))
          = Some (File (write_pages lib (clock w + i) [pages ! i]))
        \<and> page_filename i = ''page_'' @ format_03d (i + 1) @ ''.pdf''
        \<and> length (format_03d (i + 1)) = 3"
    if "i < length pages" for i
  proof -
    from that assms(5) have "i + 1 < 1000" by simp
    then have "length (format_03d (i + 1)) = 3" by (rule length_format_03d)
    moreover have "lookup (cwd w) (files w') (path_join output_dir (page_filename i))
          = Some (File (write_pages lib (clock w + i) [pages ! i]))"
      using page that by (simp add: lookup_join [OF page_filename_valid rd' dd'])
    ultimately show ?thesis by (simp add: page_filename_def)
  qed
  moreover have "distinct (map page_filename [0..<length pages])"
    by (simp add: distinct_map inj_on_def page_filename_inj)
  moreover have "map_of (files w') k = map_of (files w) k
                 \<or> (map_of (files w) k = None \<and> map_of (files w') k = Some Dir)"
    if "\<forall>i < length pages.
          resolve (cwd w) fs1 (path_join output_dir (page_filename i)) \<noteq> Inr k" for k
  proof -
    from that have "\<forall>i < length pages. k \<noteq> ?key kd i" by (auto simp: pk)
    with other have "map_of (files w') k = map_of fs1 k" by blast
    with ensure_dir_frame [OF assms(1), of k] show ?thesis by simp
  qed
  ultimately show ?thesis using run d by blast
qed

theorem split_pdf_writes_each_page_witness:
  "\<exists>w'. split_pdf demo_library ''doc.pdf'' ''pdf_pages''
           \<lparr>cwd = [''home''],
            files = [([''home''], Dir), ([''home'', ''doc.pdf''], File ''%PDFab'')],
            console = [], clock = 0\<rparr> = Returned () w'
      \<and> lookup [''home''] (files w') ''pdf_pages'' = Some Dir
      \<and> lookup [''home''] (files w') ''pdf_pages/page_001.pdf'' = Some (File ''%PDFa'')
      \<and> lookup [''home''] (files w') ''pdf_pages/page_002.pdf'' = Some (File ''%PDFb'')
      \<and> map_of (files w') [''home'', ''doc.pdf''] = Some (File ''%PDFab'')"
proof -
  let ?w = "\<lparr>cwd = [''home''],
             files = [([''home''], Dir), ([''home'', ''doc.pdf''], File ''%PDFab'')],
             console = [], clock = 0\<rparr>"
  let ?fs1 = "[([''home''], Dir), ([''home'', ''doc.pdf''], File ''%PDFab''),
               ([''home'', ''pdf_pages''], Dir)]"
  let ?pages = "[''a'', ''b'']"
  have a1: "ensure_dir (cwd ?w) ''pdf_pages'' (files ?w) = (None, ?fs1)"
    by code_simp
  have "lookup (cwd ?w) (files ?w) ''pdf_pages'' = None"
    by code_simp
  then have a2: "\<forall>b. lookup (cwd ?w) (files ?w) ''pdf_pages'' \<noteq> Some (File b)"
    by simp
  have a3: "read_file (cwd ?w) (files ?w) ''doc.pdf'' = Inr ''%PDFab''"
    by code_simp
  have a4: "read_pages demo_library ''%PDFab'' = Some ?pages"
    by code_simp
  have a5: "length ?pages \<le> 999"
    by simp
  have "\<forall>i \<in> set [0..<length ?pages].
          lookup (cwd ?w) ?fs1 (path_join ''pdf_pages'' (page_filename i)) \<noteq> Some Dir"
    by code_simp
  then have a6: "\<forall>i < length ?pages.
          lookup (cwd ?w) ?fs1 (path_join ''pdf_pages'' (page_filename i)) \<noteq> Some Dir"
    by (rule all_below)
  have "\<forall>i \<in> set [0..<length ?pages].
          resolve (cwd ?w) ?fs1 ''doc.pdf''
            \<noteq> resolve (cwd ?w) ?fs1 (path_join ''pdf_pages'' (page_filename i))"
    by code_simp
  then have a7: "\<forall>i < length ?pages.
          resolve (cwd ?w) ?fs1 ''doc.pdf''
            \<noteq> resolve (cwd ?w) ?fs1 (path_join ''pdf_pages'' (page_filename i))"
    by (rule all_below)
  from split_pdf_writes_each_page [OF a1 a2 a3 a4 a5 a6 a7] obtain w' where
    run: "split_pdf demo_library ''doc.pdf'' ''pdf_pages'' ?w = Returned () w'"
    and d: "lookup (cwd ?w) (files w') ''pdf_pages'' = Some Dir"
    and page: "\<forall>i < length ?pages.
                 lookup (cwd ?w) (files w') (path_join ''pdf_pages'' (page_filename i))
                   = Some (File (write_pages demo_library (clock ?w + i) [?pages ! i]))
                 \<and> page_filename i = ''page_'' @ format_03d (i + 1) @ ''.pdf''
                 \<and> length (format_03d (i + 1)) = 3"
    and other: "\<forall>k. (\<forall>i < length ?pages.
                        resolve (cwd ?w) ?fs1 (path_join ''pdf_pages'' (page_filename i)) \<noteq> Inr k)
                 \<longrightarrow> map_of (files w') k = map_of (files ?w) k
                      \<or> (map_of (files ?w) k = None \<and> map_of (files w') k = Some Dir)"
    by blast
  have c: "cwd ?w = [''home'']" by simp
  have p0: "path_join ''pdf_pages'' (page_filename 0) = ''pdf_pages/page_001.pdf''"
    and p1: "path_join ''pdf_pages'' (page_filename 1) = ''pdf_pages/page_002.pdf''"
    by code_simp+
  have c0: "write_pages demo_library (clock ?w + 0) [?pages ! 0] = ''%PDFa''"
    and c1: "write_pages demo_library (clock ?w + 1) [?pages ! 1] = ''%PDFb''"
    by (simp_all add: demo_library_def)
  have "(0::nat) < length ?pages" by simp
  with page have "lookup (cwd ?w) (files w') (path_join ''pdf_pages'' (page_filename 0))
                   = Some (File (write_pages demo_library (clock ?w + 0) [?pages ! 0]))"
    by blast
  then have r0: "lookup [''home''] (files w') ''pdf_pages/page_001.pdf'' = Some (File ''%PDFa'')"
    by (simp only: p0 c0 c)
  have "(1::nat) < length ?pages" by simp
  with page have "lookup (cwd ?w) (files w') (path_join ''pdf_pages'' (page_filename 1))
                   = Some (File (write_pages demo_library (clock ?w + 1) [?pages ! 1]))"
    by blast
  then have r1: "lookup [''home''] (files w') ''pdf_pages/page_002.pdf'' = Some (File ''%PDFb'')"
    by (simp only: p1 c1 c)
  have "\<forall>i \<in> set [0..<length ?pages].
          resolve (cwd ?w) ?fs1 (path_join ''pdf_pages'' (page_filename i))
            \<noteq> Inr [''home'', ''doc.pdf'']"
    by code_simp
  then have "\<forall>i < length ?pages.
          resolve (cwd ?w) ?fs1 (path_join ''pdf_pages'' (page_filename i))
            \<noteq> Inr [''home'', ''doc.pdf'']"
    by (rule all_below)
  with other have "map_of (files w') [''home'', ''doc.pdf'']
                     = map_of (files ?w) [''home'', ''doc.pdf'']
      \<or> (map_of (files ?w) [''home'', ''doc.pdf''] = None
         \<and> map_of (files w') [''home'', ''doc.pdf''] = Some Dir)"
    by blast
  then have r2: "map_of (files w') [''home'', ''doc.pdf''] = Some (File ''%PDFab'')"
    by simp
  from d have d': "lookup [''home''] (files w') ''pdf_pages'' = Some Dir"
    by (simp only: c)
  from run d' r0 r1 r2 show ?thesis by blast
qed

text \<open>
  Claim C3 as stated, for every readable source, fails when the source is one of the
  page files the run writes. The two-page document \<open>pdf_pages/page_001.pdf\<close>, split into
  \<open>./pdf_pages\<close>, is replaced by its own first page when the first page file is written;
  the reader, which takes each page from the open file when the loop asks for it, finds
  no second page there, and the run ends with an error and a single page file.
\<close>

theorem split_pdf_source_among_pages_counterexample:
  "read_file [] [([''pdf_pages''], Dir), ([''pdf_pages'', ''page_001.pdf''], File ''%PDFab'')]
     ''pdf_pages/page_001.pdf'' = Inr ''%PDFab''
   \<and> read_pages demo_library ''%PDFab'' = Some [''a'', ''b'']
   \<and> split_pdf demo_library ''pdf_pages/page_001.pdf'' ''./pdf_pages''
       \<lparr>cwd = [],
        files = [([''pdf_pages''], Dir), ([''pdf_pages'', ''page_001.pdf''], File ''%PDFab'')],
        console = [], clock = 0\<rparr> =
     Raised IndexError
       \<lparr>cwd = [],
        files = [([''pdf_pages''], Dir), ([''pdf_pages'', ''page_001.pdf''], File ''%PDFa'')],
        console = [Splitting ''pdf_pages/page_001.pdf'' 2, Created ''page_001.pdf'' (Some 5)],
        clock = 1\<rparr>"
  by code_simp

text \<open>
  Claim C5. Let the writer of the library give the same bytes for the same page whenever
  it is called (nothing in the scripts ensures or disturbs this), and let the first run
  meet an output directory that does not conflict: the directory step succeeds on a path
  that is not a regular file, no directory lies at the path of a page file, and the
  source is not itself one of the page files. Then the first run returns, a second run
  on the world it left returns as well, the second run writes for every page index the
  same bytes as the first, and it leaves every node as the first run left it.
\<close>

theorem split_pdf_twice:
  assumes "\<forall>s t ps. write_pages lib s ps = write_pages lib t ps"
    and "ensure_dir (cwd w) output_dir (files w) = (None, fs1)"
    and "\<forall>b. lookup (cwd w) (files w) output_dir \<noteq> Some (File b)"
    and "read_file (cwd w) (files w) input_path = Inr bytes"
    and "read_pages lib bytes = Some pages"
    and "\<forall>i < length pages.
           lookup (cwd w) fs1 (path_join output_dir (page_filename i)) \<noteq> Some Dir"
    and "\<forall>i < length pages.
           resolve (cwd w) fs1 input_path
             \<noteq> resolve (cwd w) fs1 (path_join output_dir (page_filename i))"
  shows "\<exists>w1 w2. split_pdf lib input_path output_dir w = Returned () w1
           \<and> split_pdf lib input_path output_dir w1 = Returned () w2
           \<and> (\<forall>i < length pages.
                 lookup (cwd w) (files w1) (path_join output_dir (page_filename i))
                   = Some (File (write_pages lib (clock w + i) [pages ! i]))
                 \<and> lookup (cwd w) (files w2) (path_join output_dir (page_filename i))
                   = lookup (cwd w) (files w1) (path_join output_dir (page_filename i)))
           \<and> (\<forall>k. map_of (files w2) k = map_of (files w1) k)"
proof -
  let ?key = "\<lambda>kd i. kd @ [page_filename i]"
  from ensure_dir_dir [OF assms(2,3)] obtain kd where
    rd: "resolve (cwd w) fs1 output_dir = Inr kd" and dd: "is_dir fs1 kd"
    by blast
  have pk: "resolve (cwd w) fs1 (path_join output_dir (page_filename i)) = Inr (?key kd i)"
    for i
    using page_filename_valid rd dd by (rule resolve_join)
  from assms(4) obtain ks where "resolve (cwd w) (files w) input_path = Inr ks"
    and ne: "ks \<noteq> []" and "map_of (files w) ks = Some (File bytes)"
    by (auto simp: read_file_key)
  with ensure_dir_keeps_source [OF assms(2)]
  have rs: "resolve (cwd w) fs1 input_path = Inr ks" and ms: "map_of fs1 ks = Some (File bytes)"
    by blast+
  have free: "\<forall>i < length pages. ks \<noteq> ?key kd i \<and> map_of fs1 (?key kd i) \<noteq> Some Dir"
  proof (intro allI impI)
    fix i assume i: "i < length pages"
    with assms(7) have "ks \<noteq> ?key kd i" by (simp add: rs pk)
    moreover from i assms(6) have "map_of fs1 (?key kd i) \<noteq> Some Dir"
      by (simp add: lookup_join [OF page_filename_valid rd dd])
    ultimately show "ks \<noteq> ?key kd i \<and> map_of fs1 (?key kd i) \<noteq> Some Dir" by simp
  qed
  from split_pdf_run [OF assms(2) rd dd rs ne ms assms(5) free] obtain w1 where
    run1: "split_pdf lib input_path output_dir w = Returned () w1"
    and c1: "cwd w1 = cwd w"
    and di1: "\<forall>x. is_dir (files w1) x = is_dir fs1 x"
    and page1: "\<forall>i < length pages.
                  map_of (files w1) (?key kd i)
                    = Some (File (write_pages lib (clock w + i) [pages ! i]))"
    and other1: "\<forall>k. (\<forall>i < length pages. k \<noteq> ?key kd i) \<longrightarrow>
                  map_of (files w1) k = map_of fs1 k"
    by blast
  have rd1: "resolve (cwd w1) (files w1) output_dir = Inr kd"
    using rd resolve_same_dirs [OF di1, of "cwd w" output_dir kd] by (simp add: c1)
  have dd1: "is_dir (files w1) kd" using di1 dd by simp
  have "lookup (cwd w1) (files w1) output_dir = Some Dir"
    using rd1 dd1 by (auto simp: lookup_dir)
  then have e1: "ensure_dir (cwd w1) output_dir (files w1) = (None, files w1)"
    by (simp add: ensure_dir_def)
  have rs1: "resolve (cwd w1) (files w1) input_path = Inr ks"
    using rs resolve_same_dirs [OF di1, of "cwd w" input_path ks] by (simp add: c1)
  have ms1: "map_of (files w1) ks = Some (File bytes)"
    using other1 free ms by simp
  have free1: "\<forall>i < length pages. ks \<noteq> ?key kd i
                 \<and> map_of (files w1) (?key kd i) \<noteq> Some Dir"
    using free page1 by simp
  from split_pdf_run [OF e1 rd1 dd1 rs1 ne ms1 assms(5) free1] obtain w2 where
    run2: "split_pdf lib input_path output_dir w1 = Returned () w2"
    and di2: "\<forall>x. is_dir (files w2) x = is_dir (files w1) x"
    and page2: "\<forall>i < length pages.
                  map_of (files w2) (?key kd i)
                    = Some (File (write_pages lib (clock w1 + i) [pages ! i]))"
    and other2: "\<forall>k. (\<forall>i < length pages. k \<noteq> ?key kd i) \<longrightarrow>
                  map_of (files w2) k = map_of (files w1) k"
    by blast
  have same: "map_of (files w2) k = map_of (files w1) k" for k
  proof (cases "\<forall>i < length pages. k \<noteq> ?key kd i")
    case True
    with other2 show ?thesis by blast
  next
    case False
    then obtain i where i: "i < length pages" and k: "k = ?key kd i" by blast
    from page2 i have "map_of (files w2) k
        = Some (File (write_pages lib (clock w1 + i) [pages ! i]))"
      by (simp add: k)
    also from assms(1) have "write_pages lib (clock w1 + i) [pages ! i]
        = write_pages lib (clock w + i) [pages ! i]"
      by blast
    finally show ?thesis using page1 i by (simp add: k)
  qed
  have rd2: "resolve (cwd w) (files w2) output_dir = Inr kd"
    using rd1 resolve_same_dirs [OF di2, of "cwd w" output_dir kd] by (simp add: c1)
  have dd2: "is_dir (files w2) kd" using di2 dd1 by simp
  have rd1': "resolve (cwd w) (files w1) output_dir = Inr kd"
    using rd1 by (simp add: c1)
  have "lookup (cwd w) (files w1) (path_join output_dir (page_filename i))
          = Some (File (write_pages lib (clock w + i) [pages ! i]))
        \<and> lookup (cwd w) (files w2) (path_join output_dir (page_filename i))
          = lookup (cwd w) (files w1) (path_join output_dir (page_filename i))"
    if "i < length pages" for i
    using that page1 same
    by (simp add: lookup_join [OF page_filename_valid rd1' dd1]
        lookup_join [OF page_filename_valid rd2 dd2])
  with run1 run2 same show ?thesis by blast
qed

theorem split_pdf_twice_witness:
  "\<exists>w1 w2. split_pdf demo_library ''doc.pdf'' ''pdf_pages''
               \<lparr>cwd = [''home''],
                files = [([''home''], Dir), ([''home'', ''doc.pdf''], File ''%PDFab'')],
                console = [], clock = 0\<rparr> = Returned () w1
      \<and> split_pdf demo_library ''doc.pdf'' ''pdf_pages'' w1 = Returned () w2
      \<and> lookup [''home''] (files w1) ''pdf_pages/page_001.pdf'' = Some (File ''%PDFa'')
      \<and> lookup [''home''] (files w2) ''pdf_pages/page_001.pdf'' = Some (File ''%PDFa'')
      \<and> lookup [''home''] (files w1) ''pdf_pages/page_002.pdf'' = Some (File ''%PDFb'')
      \<and> lookup [''home''] (files w2) ''pdf_pages/page_002.pdf'' = Some (File ''%PDFb'')"
proof -
  let ?w = "\<lparr>cwd = [''home''],
             files = [([''home''], Dir), ([''home'', ''doc.pdf''], File ''%PDFab'')],
             console = [], clock = 0\<rparr>"
  let ?fs1 = "[([''home''], Dir), ([''home'', ''doc.pdf''], File ''%PDFab''),
               ([''home'', ''pdf_pages''], Dir)]"
  let ?pages = "[''a'', ''b'']"
  have a0: "\<forall>s t ps. write_pages demo_library s ps = write_pages demo_library t ps"
    by (simp add: demo_library_def)
  have a1: "ensure_dir (cwd ?w) ''pdf_pages'' (files ?w) = (None, ?fs1)"
    by code_simp
  have "lookup (cwd ?w) (files ?w) ''pdf_pages'' = None"
    by code_simp
  then have a2: "\<forall>b. lookup (cwd ?w) (files ?w) ''pdf_pages'' \<noteq> Some (File b)"
    by simp
  have a3: "read_file (cwd ?w) (files ?w) ''doc.pdf'' = Inr ''%PDFab''"
    by code_simp
  have a4: "read_pages demo_library ''%PDFab'' = Some ?pages"
    by code_simp
  have "\<forall>i \<in> set [0..<length ?pages].
          lookup (cwd ?w) ?fs1 (path_join ''pdf_pages'' (page_filename i)) \<noteq> Some Dir"
    by code_simp
  then have a6: "\<forall>i < length ?pages.
          lookup (cwd ?w) ?fs1 (path_join ''pdf_pages'' (page_filename i)) \<noteq> Some Dir"
    by (rule all_below)
  have "\<forall>i \<in> set [0..<length ?pages].
          resolve (cwd ?w) ?fs1 ''doc.pdf''
            \<noteq> resolve (cwd ?w) ?fs1 (path_join ''pdf_pages'' (page_filename i))"
    by code_simp
  then have a7: "\<forall>i < length ?pages.
          resolve (cwd ?w) ?fs1 ''doc.pdf''
            \<noteq> resolve (cwd ?w) ?fs1 (path_join ''pdf_pages'' (page_filename i))"
    by (rule all_below)
  from split_pdf_twice [OF a0 a1 a2 a3 a4 a6 a7] obtain w1 w2 where
    run1: "split_pdf demo_library ''doc.pdf'' ''pdf_pages'' ?w = Returned () w1"
    and run2: "split_pdf demo_library ''doc.pdf'' ''pdf_pages'' w1 = Returned () w2"
    and page: "\<forall>i < length ?pages.
                 lookup (cwd ?w) (files w1) (path_join ''pdf_pages'' (page_filename i))
                   = Some (File (write_pages demo_library (clock ?w + i) [?pages ! i]))
                 \<and> lookup (cwd ?w) (files w2) (path_join ''pdf_pages'' (page_filename i))
                   = lookup (cwd ?w) (files w1) (path_join ''pdf_pages'' (page_filename i))"
    by blast
  have c: "cwd ?w = [''home'']" by simp
  have p0: "path_join ''pdf_pages'' (page_filename 0) = ''pdf_pages/page_001.pdf''"
    and p1: "path_join ''pdf_pages'' (page_filename 1) = ''pdf_pages/page_002.pdf''"
    by code_simp+
  have c0: "write_pages demo_library (clock ?w + 0) [?pages ! 0] = ''%PDFa''"
    and c1: "write_pages demo_library (clock ?w + 1) [?pages ! 1] = ''%PDFb''"
    by (simp_all add: demo_library_def)
  have "(0::nat) < length ?pages" by simp
  with page have
    "lookup (cwd ?w) (files w1) (path_join ''pdf_pages'' (page_filename 0))
       = Some (File (write_pages demo_library (clock ?w + 0) [?pages ! 0]))
     \<and> lookup (cwd ?w) (files w2) (path_join ''pdf_pages'' (page_filename 0))
       = lookup (cwd ?w) (files w1) (path_join ''pdf_pages'' (page_filename 0))"
    by blast
  then have r0: "lookup [''home''] (files w1) ''pdf_pages/page_001.pdf'' = Some (File ''%PDFa'')
     \<and> lookup [''home''] (files w2) ''pdf_pages/page_001.pdf''
       = lookup [''home''] (files w1) ''pdf_pages/page_001.pdf''"
    by (simp only: p0 c0 c)
  have "(1::nat) < length ?pages" by simp
  with page have
    "lookup (cwd ?w) (files w1) (path_join ''pdf_pages'' (page_filename 1))
       = Some (File (write_pages demo_library (clock ?w + 1) [?pages ! 1]))
     \<and> lookup (cwd ?w) (files w2) (path_join ''pdf_pages'' (page_filename 1))
       = lookup (cwd ?w) (files w1) (path_join ''pdf_pages'' (page_filename 1))"
    by blast
  then have r1: "lookup [''home''] (files w1) ''pdf_pages/page_002.pdf'' = Some (File ''%PDFb'')
     \<and> lookup [''home''] (files w2) ''pdf_pages/page_002.pdf''
       = lookup [''home''] (files w1) ''pdf_pages/page_002.pdf''"
    by (simp only: p1 c1 c)
  from run1 run2 r0 r1 show ?thesis by auto
qed

text \<open>
  Claim C8, at the moment the source is opened. The splitter opens the source after the
  directory step. If the source path then does not name a regular file holding a
  readable document, the splitter raises and does not return: the error is the one of
  the directory step if that failed, and otherwise the read error itself
  (\<open>FileNotFoundError\<close>, \<open>NotADirectoryError\<close> or \<open>IsADirectoryError\<close> from opening the
  path, \<open>PdfReadError\<close> from the reader), in the world the directory step left: nothing
  is printed, no file is written or removed, and a directory created for the output
  stays. When the output directory is there already, the directory step changes nothing,
  and the condition is one on the files the splitter is called with.
\<close>

theorem split_pdf_unreadable_source:
  assumes "ensure_dir (cwd w) output_dir (files w) = (r, fs1)"
    and "\<forall>b. lookup (cwd w) fs1 input_path = Some (File b) \<longrightarrow> read_pages lib b = None"
  shows "\<exists>e. split_pdf lib input_path output_dir w = Raised e (w\<lparr>files := fs1\<rparr>)
           \<and> (case r of
                 Some e0 \<Rightarrow> e = e0
               | None \<Rightarrow> e = (case read_file (cwd w) fs1 input_path of
                               Inl e' \<Rightarrow> e' | Inr b \<Rightarrow> PdfReadError))
           \<and> (\<forall>k. map_of fs1 k = map_of (files w) k
                    \<or> (map_of (files w) k = None \<and> map_of fs1 k = Some Dir))
           \<and> (lookup (cwd w) (files w) output_dir \<noteq> None \<longrightarrow> fs1 = files w)"
proof -
  have "\<forall>k. map_of fs1 k = map_of (files w) k
                \<or> (map_of (files w) k = None \<and> map_of fs1 k = Some Dir)"
    using ensure_dir_frame [OF assms(1)] by blast
  moreover have "lookup (cwd w) (files w) output_dir \<noteq> None \<longrightarrow> fs1 = files w"
    using assms(1) by (auto simp: ensure_dir_def)
  ultimately have fr: "(\<forall>k. map_of fs1 k = map_of (files w) k
                \<or> (map_of (files w) k = None \<and> map_of fs1 k = Some Dir))
           \<and> (lookup (cwd w) (files w) output_dir \<noteq> None \<longrightarrow> fs1 = files w)"
    by blast
  show ?thesis
  proof (cases r)
    case (Some e0)
    with assms(1) have "split_pdf lib input_path output_dir w = Raised e0 (w\<lparr>files := fs1\<rparr>)"
      by (simp add: split_pdf_def)
    with Some fr show ?thesis by simp
  next
    case None
    note e = assms(1) [unfolded None]
    show ?thesis
    proof (cases "open_file (cwd w) fs1 input_path")
      case (Inl err)
      with e have "split_pdf lib input_path output_dir w = Raised err (w\<lparr>files := fs1\<rparr>)"
        by (simp add: split_pdf_def)
      moreover from Inl have "read_file (cwd w) fs1 input_path = Inl err"
        by (simp add: read_file_def)
      ultimately show ?thesis using None fr by simp
    next
      case (Inr ks)
      then obtain b where rs: "resolve (cwd w) fs1 input_path = Inr ks" and ne: "ks \<noteq> []"
        and m: "map_of fs1 ks = Some (File b)"
        by (auto simp: open_file_Inr)
      then have rd: "read_file (cwd w) fs1 input_path = Inr b"
        by (auto simp: read_file_key)
      then have "lookup (cwd w) fs1 input_path = Some (File b)"
        by (simp only: read_file_Inr)
      with assms(2) have "read_pages lib b = None" by blast
      with m have "reader_pages lib fs1 ks = Inl PdfReadError"
        by (simp add: reader_pages_def)
      with e Inr
      have "split_pdf lib input_path output_dir w = Raised PdfReadError (w\<lparr>files := fs1\<rparr>)"
        by (simp add: split_pdf_def)
      with rd None fr show ?thesis by simp
    qed
  qed
qed

theorem split_pdf_unreadable_source_witness:
  "split_pdf demo_library ''notes.txt'' ''pdf_pages''
     \<lparr>cwd = [''home''],
      files = [([''home''], Dir), ([''home'', ''notes.txt''], File ''hello'')],
      console = [], clock = 0\<rparr> =
   Raised PdfReadError
     \<lparr>cwd = [''home''],
      files = [([''home''], Dir), ([''home'', ''notes.txt''], File ''hello''),
               ([''home'', ''pdf_pages''], Dir)],
      console = [], clock = 0\<rparr>"
proof -
  let ?w = "\<lparr>cwd = [''home''],
             files = [([''home''], Dir), ([''home'', ''notes.txt''], File ''hello'')],
             console = [], clock = 0\<rparr>"
  let ?fs1 = "[([''home''], Dir), ([''home'', ''notes.txt''], File ''hello''),
               ([''home'', ''pdf_pages''], Dir)]"
  have e: "ensure_dir (cwd ?w) ''pdf_pages'' (files ?w) = (None, ?fs1)"
    by code_simp
  have l: "lookup (cwd ?w) ?fs1 ''notes.txt'' = Some (File ''hello'')"
    by code_simp
  have r: "read_pages demo_library ''hello'' = None"
    by code_simp
  have a: "\<forall>b. lookup (cwd ?w) ?fs1 ''notes.txt'' = Some (File b)
             \<longrightarrow> read_pages demo_library b = None"
    using l r by simp
  have rd: "read_file [''home''] ?fs1 ''notes.txt'' = Inr ''hello''"
    by code_simp
  from split_pdf_unreadable_source [OF e a] obtain err where
    run: "split_pdf demo_library ''notes.txt'' ''pdf_pages'' ?w = Raised err (?w\<lparr>files := ?fs1\<rparr>)"
    and err: "(case None of
                 Some e0 \<Rightarrow> err = e0
               | None \<Rightarrow> err = (case read_file (cwd ?w) ?fs1 ''notes.txt'' of
                                 Inl e' \<Rightarrow> e' | Inr b \<Rightarrow> PdfReadError))"
    by blast
  from err have "err = PdfReadError" by (simp add: rd)
  with run show ?thesis by simp
qed

text \<open>
  Claim C8 as stated, for a source path that does not exist when the splitter is called,
  fails: the output directory is created before the source is opened, so a source path
  that leads through it exists by then. With \<open>doc.pdf\<close> in the working directory and no
  directory \<open>pdf_pages\<close>, the path \<open>pdf_pages/../doc.pdf\<close> does not exist, and yet the
  splitter opens it, splits the document and returns.
\<close>

theorem split_pdf_source_through_output_directory_counterexample:
  "lookup [''home''] [([''home''], Dir), ([''home'', ''doc.pdf''], File ''%PDFa'')]
     ''pdf_pages/../doc.pdf'' = None
   \<and> split_pdf demo_library ''pdf_pages/../doc.pdf'' ''pdf_pages''
       \<lparr>cwd = [''home''],
        files = [([''home''], Dir), ([''home'', ''doc.pdf''], File ''%PDFa'')],
        console = [], clock = 0\<rparr> =
     Returned ()
       \<lparr>cwd = [''home''],
        files = [([''home''], Dir), ([''home'', ''doc.pdf''], File ''%PDFa''),
                 ([''home'', ''pdf_pages''], Dir),
                 ([''home'', ''pdf_pages'', ''page_001.pdf''], File ''%PDFa'')],
        console = [Splitting ''pdf_pages/../doc.pdf'' 1, Created ''page_001.pdf'' (Some 5),
                   Split_complete 1 ''pdf_pages'', Directory_contents,
                   Listed ''page_001.pdf'' (Some 5)],
        clock = 1\<rparr>"
  by code_simp

lemma ensure_dir_empty: "ensure_dir wd [] fs = (Some FileNotFoundError, fs)"
  by (simp add: ensure_dir_def makedirs_def lookup_def resolve_def)

text \<open>
  Claim C10, as the code has it. Whatever the outcome of a run, the only files the
  splitter writes are entries named \<open>page_{n:03d}.pdf\<close> of the output directory: a file
  found afterwards was there before with the same bytes, or is such an entry, and a file
  that is no such entry keeps its bytes. So the source document keeps its bytes whenever
  it is not itself one of those page files, by whatever path it is named.
\<close>

theorem split_pdf_writes_page_files_only:
  assumes "ensure_dir (cwd w) output_dir (files w) = (r, fs1)"
    and "w' = world_of (split_pdf lib input_path output_dir w)"
  shows "cwd w' = cwd w
       \<and> (\<forall>k b. map_of (files w') k = Some (File b) \<longrightarrow>
            map_of (files w) k = Some (File b)
            \<or> (\<exists>kd i. resolve (cwd w) fs1 output_dir = Inr kd \<and> is_dir fs1 kd
                  \<and> k = kd @ [page_filename i]))
       \<and> (\<forall>k b. map_of (files w) k = Some (File b) \<longrightarrow>
            (\<forall>kd i. resolve (cwd w) fs1 output_dir = Inr kd \<longrightarrow> is_dir fs1 kd \<longrightarrow>
                      k \<noteq> kd @ [page_filename i]) \<longrightarrow>
            map_of (files w') k = Some (File b))
       \<and> (\<forall>b. read_file (cwd w) (files w) input_path = Inr b \<longrightarrow>
            (\<forall>i. resolve (cwd w) fs1 input_path
                   \<noteq> resolve (cwd w) fs1 (path_join output_dir (page_filename i))) \<longrightarrow>
            read_file (cwd w) (files w') input_path = Inr b)"
proof -
  note sf = split_pdf_frame [OF assms(1), of lib input_path, folded assms(2)]
  from sf have c: "cwd w' = cwd w" and di: "\<forall>x. is_dir (files w') x = is_dir fs1 x"
    by blast+
  have e0: "map_of fs1 k = map_of (files w) k
      \<or> (map_of (files w) k = None \<and> map_of fs1 k = Some Dir)" for k
    using ensure_dir_frame [OF assms(1)] by blast
  have fr: "map_of (files w') k = map_of fs1 k
      \<or> ((\<exists>kd i. resolve (cwd w) fs1 output_dir = Inr kd \<and> is_dir fs1 kd
                \<and> k = kd @ [page_filename i])
         \<and> (\<exists>b. map_of (files w') k = Some (File b)))" for k
  proof (cases "output_dir = []")
    case True
    with assms(1) have "r = Some FileNotFoundError" and "fs1 = files w"
      by (simp_all add: ensure_dir_empty)
    with assms(1,2) have "files w' = fs1"
      by (simp add: split_pdf_def)
    then show ?thesis by simp
  next
    case False
    from sf [of k] have "map_of (files w') k = map_of fs1 k
      \<or> ((\<exists>i. resolve (cwd w) fs1 (path_join output_dir (page_filename i)) = Inr k)
         \<and> (\<exists>b. map_of (files w') k = Some (File b)))"
      by blast
    then show ?thesis
    proof
      assume "map_of (files w') k = map_of fs1 k"
      then show ?thesis by simp
    next
      assume a: "(\<exists>i. resolve (cwd w) fs1 (path_join output_dir (page_filename i)) = Inr k)
         \<and> (\<exists>b. map_of (files w') k = Some (File b))"
      then obtain i where "resolve (cwd w) fs1 (path_join output_dir (page_filename i)) = Inr k"
        by blast
      from resolve_join_back [OF page_filename_valid False this] a show ?thesis by blast
    qed
  qed
  have new: "map_of (files w) k = Some (File b)
      \<or> (\<exists>kd i. resolve (cwd w) fs1 output_dir = Inr kd \<and> is_dir fs1 kd
            \<and> k = kd @ [page_filename i])"
    if "map_of (files w') k = Some (File b)" for k b
    using fr [of k] e0 [of k] that by auto
  have old: "map_of (files w') k = Some (File b)"
    if "map_of (files w) k = Some (File b)"
      "\<forall>kd i. resolve (cwd w) fs1 output_dir = Inr kd \<longrightarrow> is_dir fs1 kd \<longrightarrow>
                k \<noteq> kd @ [page_filename i]"
    for k b
    using fr [of k] e0 [of k] that by auto
  have "read_file (cwd w) (files w') input_path = Inr b"
    if rd: "read_file (cwd w) (files w) input_path = Inr b"
      and a: "\<forall>i. resolve (cwd w) fs1 input_path
                   \<noteq> resolve (cwd w) fs1 (path_join output_dir (page_filename i))" for b
  proof -
    from rd obtain ks where "resolve (cwd w) (files w) input_path = Inr ks"
      and ne: "ks \<noteq> []" and m: "map_of (files w) ks = Some (File b)"
      by (auto simp: read_file_key)
    with ensure_dir_keeps_source [OF assms(1)]
    have rs: "resolve (cwd w) fs1 input_path = Inr ks" by blast
    have "ks \<noteq> kd @ [page_filename i]"
      if "resolve (cwd w) fs1 output_dir = Inr kd" "is_dir fs1 kd" for kd i
      using resolve_join [OF page_filename_valid that, of i] a rs by (metis sum.inject(2))
    with old [OF m] have m': "map_of (files w') ks = Some (File b)" by blast
    have "resolve (cwd w) (files w') input_path = Inr ks"
      using rs resolve_same_dirs [OF di, of "cwd w" input_path ks] by simp
    with ne m' show ?thesis by (auto simp: read_file_key)
  qed
  with c new old show ?thesis by blast
qed

theorem split_pdf_writes_page_files_only_witness:
  "read_file [''home'']
     (files (world_of (split_pdf demo_library ''doc.pdf'' ''pdf_pages''
        \<lparr>cwd = [''home''],
         files = [([''home''], Dir), ([''home'', ''doc.pdf''], File ''%PDFab''),
                  ([''home'', ''pdf_pages''], Dir),
                  ([''home'', ''pdf_pages'', ''notes.txt''], File ''keep'')],
         console = [], clock = 0\<rparr>)))
     ''doc.pdf'' = Inr ''%PDFab''
   \<and> map_of
       (files (world_of (split_pdf demo_library ''doc.pdf'' ''pdf_pages''
          \<lparr>cwd = [''home''],
           files = [([''home''], Dir), ([''home'', ''doc.pdf''], File ''%PDFab''),
                    ([''home'', ''pdf_pages''], Dir),
                    ([''home'', ''pdf_pages'', ''notes.txt''], File ''keep'')],
           console = [], clock = 0\<rparr>)))
       [''home'', ''pdf_pages'', ''notes.txt''] = Some (File ''keep'')"
proof -
  let ?fs = "[([''home''], Dir), ([''home'', ''doc.pdf''], File ''%PDFab''),
              ([''home'', ''pdf_pages''], Dir),
              ([''home'', ''pdf_pages'', ''notes.txt''], File ''keep'')]"
  let ?w = "\<lparr>cwd = [''home''], files = ?fs, console = [], clock = 0\<rparr>"
  let ?w' = "world_of (split_pdf demo_library ''doc.pdf'' ''pdf_pages'' ?w)"
  have e: "ensure_dir (cwd ?w) ''pdf_pages'' (files ?w) = (None, ?fs)"
    by code_simp
  have c: "cwd ?w = [''home'']" by simp
  have rd: "resolve [''home''] ?fs ''pdf_pages'' = Inr [''home'', ''pdf_pages'']"
    by code_simp
  have dd: "is_dir ?fs [''home'', ''pdf_pages'']"
    by code_simp
  have rs: "resolve [''home''] ?fs ''doc.pdf'' = Inr [''home'', ''doc.pdf'']"
    by code_simp
  have src: "read_file (cwd ?w) (files ?w) ''doc.pdf'' = Inr ''%PDFab''"
    by code_simp
  have nt: "map_of (files ?w) [''home'', ''pdf_pages'', ''notes.txt''] = Some (File ''keep'')"
    by code_simp
  have na: "\<forall>i. resolve (cwd ?w) ?fs ''doc.pdf''
                 \<noteq> resolve (cwd ?w) ?fs (path_join ''pdf_pages'' (page_filename i))"
    by (simp add: rs resolve_join [OF page_filename_valid rd dd])
  have nn: "\<forall>kd i. resolve (cwd ?w) ?fs ''pdf_pages'' = Inr kd \<longrightarrow> is_dir ?fs kd \<longrightarrow>
              [''home'', ''pdf_pages'', ''notes.txt''] \<noteq> kd @ [page_filename i]"
    by (simp add: rd page_filename_def)
  from split_pdf_writes_page_files_only [OF e refl, of demo_library "''doc.pdf''"]
  have old: "\<forall>k b. map_of (files ?w) k = Some (File b) \<longrightarrow>
            (\<forall>kd i. resolve (cwd ?w) ?fs ''pdf_pages'' = Inr kd \<longrightarrow> is_dir ?fs kd \<longrightarrow>
                      k \<noteq> kd @ [page_filename i]) \<longrightarrow>
            map_of (files ?w') k = Some (File b)"
    and source: "\<forall>b. read_file (cwd ?w) (files ?w) ''doc.pdf'' = Inr b \<longrightarrow>
            (\<forall>i. resolve (cwd ?w) ?fs ''doc.pdf''
                   \<noteq> resolve (cwd ?w) ?fs (path_join ''pdf_pages'' (page_filename i))) \<longrightarrow>
            read_file (cwd ?w) (files ?w') ''doc.pdf'' = Inr b"
    by blast+
  from source src na have "read_file (cwd ?w) (files ?w') ''doc.pdf'' = Inr ''%PDFab''"
    by blast
  then have r1: "read_file [''home''] (files ?w') ''doc.pdf'' = Inr ''%PDFab''"
    by (simp only: c)
  from old nt nn
  have r2: "map_of (files ?w') [''home'', ''pdf_pages'', ''notes.txt''] = Some (File ''keep'')"
    by blast
  from r1 r2 show ?thesis by simp
qed

text \<open>
  Claim C10 as stated, for every run, fails: nothing keeps the source from being one of
  the page files. Splitting the two-page document \<open>page_001.pdf\<close> into its own
  directory \<open>.\<close> opens \<open>./page_001.pdf\<close> for writing, and the source holds the one-page
  document of its first page afterwards.
\<close>

theorem split_pdf_overwrites_source_counterexample:
  "read_file [''home'']
     [([''home''], Dir), ([''home'', ''page_001.pdf''], File ''%PDFab'')]
     ''page_001.pdf'' = Inr ''%PDFab''
   \<and> read_file [''home'']
       (files (world_of (split_pdf demo_library ''page_001.pdf'' ''.''
          \<lparr>cwd = [''home''],
           files = [([''home''], Dir), ([''home'', ''page_001.pdf''], File ''%PDFab'')],
           console = [], clock = 0\<rparr>)))
       ''page_001.pdf'' = Inr ''%PDFa''"
  by code_simp

section \<open>Properties of the text extractor\<close>

text \<open>On the names the splitter writes, \<open>replace('.pdf', '.txt')\<close> changes the extension and
  nothing else.\<close>

lemma replace_plain_stem:
  "CHR ''.'' \<notin> set stem \<Longrightarrow> replace (stem @ ''.pdf'') ''.pdf'' ''.txt'' = stem @ ''.txt''"
proof (induction stem)
  case Nil
  show ?case by (simp add: replace_def startswith_def)
next
  case (Cons c stem)
  then have "\<not> startswith (c # stem @ ''.pdf'') ''.pdf''"
    by (auto simp: startswith_def)
  with Cons show ?case by (simp add: replace_def)
qed

lemma replace_page_filename:
  "replace (page_filename i) ''.pdf'' ''.txt'' = sibling_text_name (page_filename i)"
proof -
  have d: "CHR ''.'' \<notin> set (str_nat n)" for n
  proof (induction n rule: str_nat.induct)
    case (1 n)
    have dc: "digit_char k \<noteq> CHR ''.''" if "k < 10" for k
    proof
      assume "digit_char k = CHR ''.''"
      then have "(of_char (digit_char k) :: nat) = of_char CHR ''.''" by simp
      with that show False by (simp add: of_char_digit)
    qed
    show ?case
    proof (cases "n < 10")
      case True
      then show ?thesis using dc [of n] by (subst str_nat.simps) auto
    next
      case False
      with 1 have "CHR ''.'' \<notin> set (str_nat (n div 10))" by simp
      moreover have "digit_char (n mod 10) \<noteq> CHR ''.''" by (rule dc) simp
      ultimately show ?thesis using False by (subst str_nat.simps) auto
    qed
  qed
  have s: "CHR ''.'' \<notin> set (''page_'' @ format_03d (i + 1))"
    using d by (simp add: format_03d_def Let_def)
  have "sibling_text_name (page_filename i) = (''page_'' @ format_03d (i + 1)) @ ''.txt''"
    by (simp add: sibling_text_name_def page_filename_def)
  moreover have "replace (page_filename i) ''.pdf'' ''.txt'' = (''page_'' @ format_03d (i + 1)) @ ''.txt''"
    using replace_plain_stem [OF s] by (simp add: page_filename_def)
  ultimately show ?thesis by simp
qed

text \<open>
  Claim C9. When the listing of the pages directory, taken after the text directory is
  there, holds no name ending in \<open>.pdf\<close>, the extractor writes no text file, prints the
  count and the two zero totals and then raises \<open>ZeroDivisionError\<close> on the average,
  which it never prints: the world it leaves differs from the start only by the text
  directory and the printed lines. A run that returns has found at least one such name.
\<close>

theorem extract_without_page_files:
  "(ensure_dir (cwd w) text_dir (files w) = (None, fs1)
      \<and> listdir (cwd w) fs1 output_dir = Inr names
      \<and> filter (\<lambda>f. endswith f ''.pdf'') names = [] \<longrightarrow>
      extract_text_from_pages lib output_dir text_dir w =
        Raised ZeroDivisionError
          (w\<lparr>files := fs1,
             console := console w @ [Extracting 0, Extraction_complete,
                                     Total_characters 0, Total_tokens 0]\<rparr>)
      \<and> (\<forall>k. map_of fs1 k = map_of (files w) k
               \<or> (map_of (files w) k = None \<and> map_of fs1 k = Some Dir)))
   \<and> (extract_text_from_pages lib output_dir text_dir w = Returned u w' \<longrightarrow>
        (\<exists>fs names. ensure_dir (cwd w) text_dir (files w) = (None, fs)
           \<and> listdir (cwd w) fs output_dir = Inr names
           \<and> filter (\<lambda>f. endswith f ''.pdf'') names \<noteq> []))"
proof -
  have "extract_text_from_pages lib output_dir text_dir w =
        Raised ZeroDivisionError
          (w\<lparr>files := fs1,
             console := console w @ [Extracting 0, Extraction_complete,
                                     Total_characters 0, Total_tokens 0]\<rparr>)"
    if "ensure_dir (cwd w) text_dir (files w) = (None, fs1)"
      "listdir (cwd w) fs1 output_dir = Inr names"
      "filter (\<lambda>f. endswith f ''.pdf'') names = []"
    using that by (simp add: extract_text_from_pages_def Let_def emit_def)
  moreover have "map_of fs1 k = map_of (files w) k
      \<or> (map_of (files w) k = None \<and> map_of fs1 k = Some Dir)"
    if "ensure_dir (cwd w) text_dir (files w) = (None, fs1)" for k
    using ensure_dir_frame [OF that, of k] by blast
  moreover have "\<exists>fs names. ensure_dir (cwd w) text_dir (files w) = (None, fs)
      \<and> listdir (cwd w) fs output_dir = Inr names
      \<and> filter (\<lambda>f. endswith f ''.pdf'') names \<noteq> []"
    if r: "extract_text_from_pages lib output_dir text_dir w = Returned u w'"
  proof -
    obtain res fs where e: "ensure_dir (cwd w) text_dir (files w) = (res, fs)"
      by (cases "ensure_dir (cwd w) text_dir (files w)")
    show ?thesis
    proof (cases res)
      case (Some err)
      with e r show ?thesis by (simp add: extract_text_from_pages_def)
    next
      case None
      note e' = e [unfolded None]
      show ?thesis
      proof (cases "listdir (cwd w) fs output_dir")
        case (Inl err)
        with e' r show ?thesis by (simp add: extract_text_from_pages_def)
      next
        case ls: (Inr names)
        have "filter (\<lambda>f. endswith f ''.pdf'') names \<noteq> []"
        proof
          assume "filter (\<lambda>f. endswith f ''.pdf'') names = []"
          with e' ls r show False
            by (simp add: extract_text_from_pages_def Let_def)
        qed
        with e' ls show ?thesis by blast
      qed
    qed
  qed
  ultimately show ?thesis by blast
qed

theorem extract_without_page_files_witness:
  "extract_text_from_pages demo_library ''pdf_pages'' ''pdf_text''
     \<lparr>cwd = [''home''],
      files = [([''home''], Dir), ([''home'', ''pdf_pages''], Dir),
               ([''home'', ''pdf_pages'', ''readme.txt''], File ''x'')],
      console = [], clock = 0\<rparr> =
   Raised ZeroDivisionError
     \<lparr>cwd = [''home''],
      files = [([''home''], Dir), ([''home'', ''pdf_pages''], Dir),
               ([''home'', ''pdf_pages'', ''readme.txt''], File ''x''),
               ([''home'', ''pdf_text''], Dir)],
      console = [Extracting 0, Extraction_complete, Total_characters 0, Total_tokens 0],
      clock = 0\<rparr>"
proof -
  let ?w = "\<lparr>cwd = [''home''],
             files = [([''home''], Dir), ([''home'', ''pdf_pages''], Dir),
                      ([''home'', ''pdf_pages'', ''readme.txt''], File ''x'')],
             console = [], clock = 0\<rparr>"
  let ?fs1 = "[([''home''], Dir), ([''home'', ''pdf_pages''], Dir),
               ([''home'', ''pdf_pages'', ''readme.txt''], File ''x''),
               ([''home'', ''pdf_text''], Dir)]"
  have e: "ensure_dir (cwd ?w) ''pdf_text'' (files ?w) = (None, ?fs1)"
    by code_simp
  have l: "listdir (cwd ?w) ?fs1 ''pdf_pages'' = Inr [''readme.txt'']"
    by code_simp
  have f: "filter (\<lambda>f. endswith f ''.pdf'') [''readme.txt''] = []"
    by code_simp
  from extract_without_page_files [of ?w "''pdf_text''" ?fs1 "''pdf_pages''" "[''readme.txt'']"
      demo_library] e l f
  have "extract_text_from_pages demo_library ''pdf_pages'' ''pdf_text'' ?w =
        Raised ZeroDivisionError
          (?w\<lparr>files := ?fs1,
              console := console ?w @ [Extracting 0, Extraction_complete,
                                       Total_characters 0, Total_tokens 0]\<rparr>)"
    by blast
  then show ?thesis by simp
qed

text \<open>
  Claim C4. The specification names the text file after the base name of the page file,
  one text file for each page file. The code computes the name with
  \<open>pdf_file.replace('.pdf', '.txt')\<close>, which rewrites every occurrence of \<open>.pdf\<close> and not
  the extension alone. With the page files \<open>a.pdf.pdf\<close> and \<open>a.txt.pdf\<close>, whose
  base names ask for \<open>a.pdf.txt\<close> and \<open>a.txt.txt\<close>, both are read, in this order, and both
  texts are written to \<open>a.txt.txt\<close>: two page files leave one text file, which holds the
  text of the second.
\<close>

theorem extract_replaces_every_occurrence:
  "sibling_text_name ''a.pdf.pdf'' = ''a.pdf.txt''
   \<and> sibling_text_name ''a.txt.pdf'' = ''a.txt.txt''
   \<and> replace ''a.pdf.pdf'' ''.pdf'' ''.txt'' = ''a.txt.txt''
   \<and> extract_text_from_pages demo_library ''pdf_pages'' ''pdf_text''
       \<lparr>cwd = [''home''],
        files = [([''home''], Dir), ([''home'', ''pdf_pages''], Dir),
                 ([''home'', ''pdf_pages'', ''a.txt.pdf''], File ''%PDFy''),
                 ([''home'', ''pdf_pages'', ''a.pdf.pdf''], File ''%PDFx'')],
        console = [], clock = 0\<rparr> =
     Returned ()
       \<lparr>cwd = [''home''],
        files = [([''home''], Dir), ([''home'', ''pdf_pages''], Dir),
                 ([''home'', ''pdf_pages'', ''a.txt.pdf''], File ''%PDFy''),
                 ([''home'', ''pdf_pages'', ''a.pdf.pdf''], File ''%PDFx''),
                 ([''home'', ''pdf_text''], Dir),
                 ([''home'', ''pdf_text'', ''a.txt.txt''], File ''y'')],
        console = [Extracting 2, Page_stats ''a.txt.txt'' 1 1, Page_stats ''a.txt.txt'' 1 1,
                   Extraction_complete, Total_characters 2, Total_tokens 2, Average_tokens 1],
        clock = 0\<rparr>"
  by code_simp

end
